theory Spec2Isabelle
  imports Main "HOL-Library.Word"
begin

unbundle bit_operations_syntax

section \<open>The lock-free ring buffer (jill/ringbuffer.hh)\<close>

text \<open>
  \<open>Ringbuffer<T>::size_type\<close> is \<open>std::size_t\<close>: an unsigned 64-bit integer whose
  arithmetic wraps around. The backing array \<open>_buf\<close> is a list of elements; both indices,
  the size and the mask are words, exactly as the class declares them.
\<close>

type_synonym size_type = "64 word"

text \<open>
  What can go wrong in a call: the two exceptions the sources throw, and an access outside
  an array, a division by zero or a shift by the width of the type (undefined behaviour in
  C++, made values here so that none is hidden).
\<close>

datatype fault = RuntimeError | LogicError | OutOfBounds | DivisionByZero | UndefinedShift

record 'a Ringbuffer =
  buf :: "'a list"
  write_ptr :: size_type
  read_ptr :: size_type
  rsize :: size_type
  size_mask :: size_type

subsection \<open>Construction\<close>

text \<open>
  \<open>for (power_of_two = 1; 1U << power_of_two < size; power_of_two++);\<close>
  The shifted constant is a 32-bit \<open>unsigned int\<close>: a shift by 32 or more is undefined, which
  the model reports as \<open>None\<close>.
\<close>

function next_power :: "nat \<Rightarrow> size_type \<Rightarrow> nat option" where
  "next_power p sz =
     (if 32 \<le> p then None
      else if (push_bit p (1 :: size_type)) < sz then next_power (Suc p) sz
      else Some p)"
  by pat_completeness auto
termination
  by (relation "measure (\<lambda>(p, sz). 32 - p)") auto

declare next_power.simps [simp del]

text \<open>
  The constructor. \<open>fresh\<close> is the content of the newly allocated array (indeterminate for
  plain data), \<open>mlock_result\<close> is what \<open>mlock\<close> returns (nonzero: the constructor throws
  \<open>std::runtime_error\<close>). The allocation itself is taken to succeed.
\<close>

definition Ringbuffer_new :: "(nat \<Rightarrow> 'a) \<Rightarrow> int \<Rightarrow> size_type \<Rightarrow> fault + 'a Ringbuffer" where
  "Ringbuffer_new fresh mlock_result sz =
     (case next_power 1 sz of
        None \<Rightarrow> Inl UndefinedShift
      | Some power_of_two \<Rightarrow>
          let s = push_bit power_of_two (1 :: size_type) in
          if mlock_result \<noteq> 0 then Inl RuntimeError
          else Inr \<lparr> buf = map fresh [0 ..< unat s], write_ptr = 0, read_ptr = 0,
                     rsize = s, size_mask = s - 1 \<rparr>)"

subsection \<open>Space queries\<close>

definition read_space :: "'a Ringbuffer \<Rightarrow> size_type" where
  "read_space rb =
     (let w = write_ptr rb; r = read_ptr rb in
      if w > r then w - r
      else if w < r then (w - r + rsize rb) AND size_mask rb
      else 0)"

definition write_space :: "'a Ringbuffer \<Rightarrow> size_type" where
  "write_space rb =
     (let w = write_ptr rb; r = read_ptr rb in
      if w > r then ((r - w + rsize rb) AND size_mask rb) - 1
      else if w < r then (r - w) - 1
      else rsize rb - 1)"

subsection \<open>Reader-side pointer moves\<close>

definition advance :: "'a Ringbuffer \<Rightarrow> size_type \<Rightarrow> 'a Ringbuffer \<times> size_type" where
  "advance rb cnt =
     (let c = (if cnt = 0 then read_space rb else min (read_space rb) cnt) in
      (rb\<lparr>read_ptr := (read_ptr rb + c) AND size_mask rb\<rparr>, c))"

text \<open>
  \<open>size_type to_flush = read_space() - cnt; if (to_flush <= 0) return 0;\<close>
  The subtraction is unsigned, so the test is an equality with zero.
\<close>

definition flush :: "'a Ringbuffer \<Rightarrow> size_type \<Rightarrow> 'a Ringbuffer \<times> size_type" where
  "flush rb cnt =
     (let to_flush = read_space rb - cnt in
      if to_flush \<le> 0 then (rb, 0)
      else (rb\<lparr>read_ptr := (read_ptr rb + to_flush) AND size_mask rb\<rparr>, to_flush))"

subsection \<open>Copying\<close>

text \<open>
  \<open>std::copy (src + first, src + first + n, dst + off)\<close> on arrays given as lists; reading or
  writing past the end of either array is the fault \<open>OutOfBounds\<close>.
\<close>

definition std_copy :: "'a list \<Rightarrow> nat \<Rightarrow> nat \<Rightarrow> 'a list \<Rightarrow> nat \<Rightarrow> fault + 'a list" where
  "std_copy src first n dst off =
     (if first + n \<le> length src \<and> off + n \<le> length dst
      then Inr (take off dst @ take n (drop first src) @ drop (off + n) dst)
      else Inl OutOfBounds)"

text \<open>The two contiguous runs \<open>(n1, n2)\<close> that \<open>push\<close> and \<open>pop\<close> compute from a pointer.\<close>

definition runs :: "'a Ringbuffer \<Rightarrow> size_type \<Rightarrow> size_type \<Rightarrow> size_type \<times> size_type" where
  "runs rb ptr n =
     (let cnt2 = ptr + n in
      if cnt2 > rsize rb then (rsize rb - ptr, cnt2 AND size_mask rb)
      else (n, 0))"

definition push :: "'a Ringbuffer \<Rightarrow> 'a list \<Rightarrow> size_type \<Rightarrow> fault + ('a Ringbuffer \<times> size_type)" where
  "push rb src cnt =
     (let free_cnt = write_space rb in
      if free_cnt = 0 then Inr (rb, 0)
      else
        let to_write = (if cnt > free_cnt then free_cnt else cnt);
            (n1, n2) = runs rb (write_ptr rb) to_write
        in case std_copy src 0 (unat n1) (buf rb) (unat (write_ptr rb)) of
             Inl e \<Rightarrow> Inl e
           | Inr b1 \<Rightarrow>
               let w1 = (write_ptr rb + n1) AND size_mask rb in
               if n2 \<noteq> 0 then
                 (case std_copy src (unat n1) (unat n2) b1 (unat w1) of
                    Inl e \<Rightarrow> Inl e
                  | Inr b2 \<Rightarrow>
                      Inr (rb\<lparr>buf := b2, write_ptr := (w1 + n2) AND size_mask rb\<rparr>, to_write))
               else Inr (rb\<lparr>buf := b1, write_ptr := w1\<rparr>, to_write))"

text \<open>
  A visitor is called with a pointer into the array and a length: it sees that run of
  elements. Its effect is a change of its own state \<open>'s\<close> (or a fault); its return value is
  ignored by \<open>pop\<close>.
\<close>

type_synonym ('a, 's) visitor = "'a list \<Rightarrow> 's \<Rightarrow> fault + 's"

definition view :: "'a list \<Rightarrow> nat \<Rightarrow> nat \<Rightarrow> fault + 'a list" where
  "view xs off n = (if off + n \<le> length xs then Inr (take n (drop off xs)) else Inl OutOfBounds)"

definition pop :: "'a Ringbuffer \<Rightarrow> ('a, 's) visitor \<Rightarrow> size_type \<Rightarrow> 's
                     \<Rightarrow> fault + ('a Ringbuffer \<times> 's \<times> size_type)" where
  "pop rb data_fun cnt st =
     (let to_read = (if cnt = 0 then read_space rb else min (read_space rb) cnt) in
      if to_read = 0 then Inr (rb, st, 0)
      else
        let (n1, n2) = runs rb (read_ptr rb) to_read in
        case view (buf rb) (unat (read_ptr rb)) (unat n1) of
          Inl e \<Rightarrow> Inl e
        | Inr run1 \<Rightarrow>
           (case data_fun run1 st of
              Inl e \<Rightarrow> Inl e
            | Inr st1 \<Rightarrow>
                let r1 = (read_ptr rb + n1) AND size_mask rb in
                if n2 \<noteq> 0 then
                  (case view (buf rb) (unat r1) (unat n2) of
                     Inl e \<Rightarrow> Inl e
                   | Inr run2 \<Rightarrow>
                      (case data_fun run2 st1 of
                         Inl e \<Rightarrow> Inl e
                       | Inr st2 \<Rightarrow>
                           Inr (rb\<lparr>read_ptr := (r1 + n2) AND size_mask rb\<rparr>, st2, to_read)))
                else Inr (rb\<lparr>read_ptr := r1\<rparr>, st1, to_read)))"

text \<open>
  \<open>detail::memcopier\<close>: its state is the destination array. Every call copies to \<open>_dest\<close>,
  the start of the destination; \<open>_dest\<close> is never moved.
\<close>

definition memcopier :: "('a, 'a list) visitor" where
  "memcopier src dest = std_copy src 0 (length src) dest 0"

definition pop_dest :: "'a Ringbuffer \<Rightarrow> 'a list \<Rightarrow> size_type
                          \<Rightarrow> fault + ('a Ringbuffer \<times> 'a list \<times> size_type)" where
  "pop_dest rb dst cnt = pop rb memcopier cnt dst"

text \<open>A visitor that appends every run it is shown to what it has seen so far.\<close>

definition collector :: "('a, 'a list) visitor" where
  "collector src seen = Inr (seen @ src)"


subsection \<open>Sequences of operations\<close>

text \<open>
  The calls the writer thread (\<open>push\<close>) and the reader thread (\<open>pop\<close> in both forms,
  \<open>advance\<close>, \<open>flush\<close>) can make, and a run of them one after the other, each call completing
  before the next starts. A fault ends the run.
\<close>

datatype ('a, 's) rb_op =
    Push "'a list" size_type
  | PopDest "'a list" size_type
  | PopVisit "('a, 's) visitor" 's size_type
  | Advance size_type
  | Flush size_type

fun apply_op :: "('a, 's) rb_op \<Rightarrow> 'a Ringbuffer \<Rightarrow> fault + 'a Ringbuffer" where
  "apply_op (Push src cnt) rb =
     (case push rb src cnt of Inl e \<Rightarrow> Inl e | Inr (rb', n) \<Rightarrow> Inr rb')"
| "apply_op (PopDest dst cnt) rb =
     (case pop_dest rb dst cnt of Inl e \<Rightarrow> Inl e | Inr (rb', dst', n) \<Rightarrow> Inr rb')"
| "apply_op (PopVisit data_fun st cnt) rb =
     (case pop rb data_fun cnt st of Inl e \<Rightarrow> Inl e | Inr (rb', st', n) \<Rightarrow> Inr rb')"
| "apply_op (Advance cnt) rb = Inr (fst (advance rb cnt))"
| "apply_op (Flush cnt) rb = Inr (fst (flush rb cnt))"

fun run_ops :: "('a, 's) rb_op list \<Rightarrow> 'a Ringbuffer \<Rightarrow> fault + 'a Ringbuffer" where
  "run_ops [] rb = Inr rb"
| "run_ops (x # xs) rb =
     (case apply_op x rb of Inl e \<Rightarrow> Inl e | Inr rb' \<Rightarrow> run_ops xs rb')"



subsection \<open>Well-formed buffers\<close>

text \<open>
  What the constructor establishes and every operation keeps: the size is \<open>2 ^ k\<close>, the mask is
  the size minus one, both indices are below the size, and the array has \<open>size\<close> elements.
\<close>

definition wf_rb :: "nat \<Rightarrow> 'a Ringbuffer \<Rightarrow> bool" where
  "wf_rb k rb \<longleftrightarrow>
     k < 64 \<and> rsize rb = 2 ^ k \<and> size_mask rb = rsize rb - 1 \<and>
     read_ptr rb < rsize rb \<and> write_ptr rb < rsize rb \<and>
     length (buf rb) = unat (rsize rb)"

text \<open>
  The elements a reader can see, oldest first: from the read index up to the write index,
  going round the end of the array when the write index is behind.
\<close>

definition ring :: "nat \<Rightarrow> nat \<Rightarrow> 'a list \<Rightarrow> 'a list" where
  "ring r w xs = (if r \<le> w then take (w - r) (drop r xs) else drop r xs @ take w xs)"

definition contents :: "'a Ringbuffer \<Rightarrow> 'a list" where
  "contents rb = ring (unat (read_ptr rb)) (unat (write_ptr rb)) (buf rb)"


section \<open>The period ring buffer (period_ringbuffer.cc)\<close>

text \<open>
  \<open>period_ringbuffer\<close> keeps whole periods in a ring buffer of bytes: a header followed by
  one block of bytes per channel. Its member functions are in the sources; the class
  declaration (\<open>period_ringbuffer.hh\<close>) is not, so what they use from it is modelled from
  the specification and marked as such.
\<close>

type_synonym byte = "8 word"

text \<open>
  Modelled from the spec: \<open>period_info_t\<close> is declared in \<open>period_ringbuffer.hh\<close>, which is
  not among the sources. The spec gives a period the attributes \<open>time\<close>, \<open>nbytes\<close> (bytes per
  channel) and \<open>nchannels\<close>; \<open>reserve\<close> assigns them from its three \<open>size_t\<close> arguments.
\<close>

record period_info_t =
  time :: size_type
  nbytes :: size_type
  nchannels :: size_type

text \<open>
  What the missing declarations fix and the functions only use: \<open>sizeof(period_info_t)\<close>,
  \<open>sizeof(sample_t)\<close>, and how a header lies in memory (the bytes of a header, and the header
  read back from bytes).
\<close>

record layout =
  sizeof_info :: size_type
  sizeof_sample :: size_type
  store_info :: "period_info_t \<Rightarrow> byte list"
  load_info :: "byte list \<Rightarrow> period_info_t"

text \<open>
  A layout for evaluating the functions on concrete buffers: the three fields are 64-bit
  little-endian integers in declaration order (24 bytes), and a sample is a 4-byte float
  (\<open>jack_default_audio_sample_t\<close>).
\<close>

definition le64 :: "size_type \<Rightarrow> byte list" where
  "le64 w = map (\<lambda>i. ucast (drop_bit (8 * i) w)) [0 ..< 8]"

definition of_le64 :: "byte list \<Rightarrow> size_type" where
  "of_le64 bs = foldr (\<lambda>b acc. ucast b + push_bit 8 acc) (take 8 bs) 0"

definition lp64 :: layout where
  "lp64 = \<lparr> sizeof_info = 24, sizeof_sample = 4,
            store_info = (\<lambda>h. le64 (time h) @ le64 (nbytes h) @ le64 (nchannels h)),
            load_info = (\<lambda>bs. \<lparr> time = of_le64 bs, nbytes = of_le64 (drop 8 bs),
                                  nchannels = of_le64 (drop 16 bs) \<rparr>) \<rparr>"

text \<open>
  The object: the ring buffer of bytes it is built on, the two header pointers (an offset
  into the array, or \<open>None\<close> for the null pointer) and the two counters of channels owed.
\<close>

record period_ringbuffer =
  super :: "byte Ringbuffer"
  read_hdr :: "nat option"
  write_hdr :: "nat option"
  chans_to_read :: size_type
  chans_to_write :: size_type

definition period_ringbuffer_new :: "(nat \<Rightarrow> byte) \<Rightarrow> int \<Rightarrow> size_type \<Rightarrow> fault + period_ringbuffer" where
  "period_ringbuffer_new fresh mlock_result sz =
     (case Ringbuffer_new fresh mlock_result sz of
        Inl e \<Rightarrow> Inl e
      | Inr rb \<Rightarrow> Inr \<lparr> super = rb, read_hdr = None, write_hdr = None,
                         chans_to_read = 0, chans_to_write = 0 \<rparr>)"

text \<open>
  Modelled from the spec: the base class and its accessors \<open>buffer()\<close>, \<open>read_offset()\<close> and
  \<open>write_offset()\<close> are declared in headers that are not among the sources. The spec says the
  base is the same ring buffer at byte granularity, and that headers are read and written
  at the current read and write offset: the offsets are the two indices.
\<close>

definition read_offset :: "period_ringbuffer \<Rightarrow> size_type" where
  "read_offset p = read_ptr (super p)"

definition write_offset :: "period_ringbuffer \<Rightarrow> size_type" where
  "write_offset p = write_ptr (super p)"

text \<open>
  Modelled from the spec: \<open>super::push(0, n)\<close> and \<open>super::pop(0, n)\<close>, the base class's
  \<open>push\<close> and \<open>pop\<close> called with a null source or destination. The spec says they advance the
  write and the read pointer past the period; they are the index arithmetic of
  \<open>Ringbuffer<T>::push\<close> and \<open>Ringbuffer<T>::pop\<close> with nothing copied.
\<close>

definition push_null :: "'a Ringbuffer \<Rightarrow> size_type \<Rightarrow> 'a Ringbuffer \<times> size_type" where
  "push_null rb cnt =
     (let free_cnt = write_space rb in
      if free_cnt = 0 then (rb, 0)
      else
        let to_write = (if cnt > free_cnt then free_cnt else cnt);
            (n1, n2) = runs rb (write_ptr rb) to_write;
            w1 = (write_ptr rb + n1) AND size_mask rb
        in if n2 \<noteq> 0 then (rb\<lparr>write_ptr := (w1 + n2) AND size_mask rb\<rparr>, to_write)
           else (rb\<lparr>write_ptr := w1\<rparr>, to_write))"

definition pop_null :: "'a Ringbuffer \<Rightarrow> size_type \<Rightarrow> 'a Ringbuffer \<times> size_type" where
  "pop_null rb cnt =
     (let to_read = (if cnt = 0 then read_space rb else min (read_space rb) cnt) in
      if to_read = 0 then (rb, 0)
      else
        let (n1, n2) = runs rb (read_ptr rb) to_read;
            r1 = (read_ptr rb + n1) AND size_mask rb
        in if n2 \<noteq> 0 then (rb\<lparr>read_ptr := (r1 + n2) AND size_mask rb\<rparr>, to_read)
           else (rb\<lparr>read_ptr := r1\<rparr>, to_read))"

text \<open>
  Modelled from the spec: \<open>bytes_per_channel()\<close> is declared in \<open>period_ringbuffer.hh\<close>. The
  spec has \<open>push\<close> copy one channel's \<open>nbytes\<close> and \<open>pop\<close> consume one channel's worth of
  bytes: it is the \<open>nbytes\<close> field of the header of the period being written or read.
\<close>

definition bytes_per_channel :: "period_info_t \<Rightarrow> size_type" where
  "bytes_per_channel h = nbytes h"

text \<open>Reading a header through a \<open>period_info_t*\<close> that points \<open>off\<close> bytes into the array.\<close>

definition hdr_at :: "layout \<Rightarrow> byte list \<Rightarrow> nat \<Rightarrow> fault + period_info_t" where
  "hdr_at L mem off =
     (case view mem off (unat (sizeof_info L)) of
        Inl e \<Rightarrow> Inl e
      | Inr bs \<Rightarrow> Inr (load_info L bs))"

text \<open>
  Every member function returns its result, or the fault that ended it, together with the
  object as the call leaves it. An exception is thrown before anything is assigned.
\<close>

definition reserve :: "layout \<Rightarrow> period_ringbuffer \<Rightarrow> size_type \<Rightarrow> size_type \<Rightarrow> size_type
                         \<Rightarrow> (fault + size_type) \<times> period_ringbuffer" where
  "reserve L p t nb nch =
     (if chans_to_write p \<noteq> 0 \<or> write_hdr p \<noteq> None then (Inl LogicError, p)
      else
        let chunk_size = sizeof_info L + nb * nch * sizeof_sample L in
        if chunk_size = 0 then (Inl DivisionByZero, p)
        else
          let chunks_avail = write_space (super p) div chunk_size in
          if chunks_avail < 1 then (Inr 0, p)
          else
            let off = unat (write_offset p);
                p1 = p\<lparr>write_hdr := Some off\<rparr>
            in case std_copy (store_info L \<lparr>time = t, nbytes = nb, nchannels = nch\<rparr>) 0
                      (unat (sizeof_info L)) (buf (super p)) off of
                 Inl e \<Rightarrow> (Inl e, p1)
               | Inr mem \<Rightarrow>
                   (Inr chunks_avail,
                    p1\<lparr>super := (super p)\<lparr>buf := mem\<rparr>, chans_to_write := nch\<rparr>))"

definition period_push :: "layout \<Rightarrow> period_ringbuffer \<Rightarrow> byte list
                             \<Rightarrow> (fault + unit) \<times> period_ringbuffer" where
  "period_push L p src =
     (case write_hdr p of
        None \<Rightarrow> (Inl LogicError, p)
      | Some hp \<Rightarrow>
          if chans_to_write p = 0 then (Inl LogicError, p)
          else
            (case hdr_at L (buf (super p)) hp of
               Inl e \<Rightarrow> (Inl e, p)
             | Inr h \<Rightarrow>
                 let off = unat (write_offset p) + unat (sizeof_info L) +
                           unat (bytes_per_channel h * (nchannels h - chans_to_write p))
                 in (case std_copy src 0 (unat (bytes_per_channel h)) (buf (super p)) off of
                       Inl e \<Rightarrow> (Inl e, p)
                     | Inr mem \<Rightarrow>
                         let p1 = p\<lparr>super := (super p)\<lparr>buf := mem\<rparr>,
                                     chans_to_write := chans_to_write p - 1\<rparr>
                         in if chans_to_write p1 = 0 then
                              (case hdr_at L mem hp of
                                 Inl e \<Rightarrow> (Inl e, p1)
                               | Inr h1 \<Rightarrow>
                                   (Inr (),
                                    p1\<lparr>super := fst (push_null (super p1)
                                           (nchannels h1 * bytes_per_channel h1 + sizeof_info L)),
                                       write_hdr := None\<rparr>))
                            else (Inr (), p1))))"

definition request :: "layout \<Rightarrow> period_ringbuffer
                         \<Rightarrow> (fault + period_info_t option) \<times> period_ringbuffer" where
  "request L p =
     (if chans_to_read p \<noteq> 0 \<or> read_hdr p \<noteq> None then (Inl LogicError, p)
      else if read_space (super p) = 0 then (Inr None, p)
      else
        let off = unat (read_offset p);
            p1 = p\<lparr>read_hdr := Some off\<rparr>
        in case hdr_at L (buf (super p)) off of
             Inl e \<Rightarrow> (Inl e, p1)
           | Inr h \<Rightarrow> (Inr (Some h), p1\<lparr>chans_to_read := nchannels h\<rparr>))"

text \<open>
  The tail shared by both forms of \<open>pop\<close>, as the source has it:
  \<open>_chans_to_read -= 1; if (_chans_to_write == 0) { super::pop(0, ...); _write_hdr = 0; }\<close>
\<close>

definition pop_finish :: "layout \<Rightarrow> period_ringbuffer \<Rightarrow> nat \<Rightarrow> (fault + unit) \<times> period_ringbuffer" where
  "pop_finish L p hp =
     (let p1 = p\<lparr>chans_to_read := chans_to_read p - 1\<rparr> in
      if chans_to_write p1 = 0 then
        (case hdr_at L (buf (super p1)) hp of
           Inl e \<Rightarrow> (Inl e, p1)
         | Inr h \<Rightarrow>
             (Inr (),
              p1\<lparr>super := fst (pop_null (super p1)
                     (nchannels h * bytes_per_channel h + sizeof_info L)),
                 write_hdr := None\<rparr>))
      else (Inr (), p1))"

definition period_pop :: "layout \<Rightarrow> period_ringbuffer \<Rightarrow> byte list
                            \<Rightarrow> (fault + byte list) \<times> period_ringbuffer" where
  "period_pop L p dest =
     (case read_hdr p of
        None \<Rightarrow> (Inl LogicError, p)
      | Some hp \<Rightarrow>
          if chans_to_read p = 0 then (Inl LogicError, p)
          else
            (case hdr_at L (buf (super p)) hp of
               Inl e \<Rightarrow> (Inl e, p)
             | Inr h \<Rightarrow>
                 let off = unat (read_offset p) + unat (sizeof_info L) +
                           unat (bytes_per_channel h * (nchannels h - chans_to_read p))
                 in (case std_copy (buf (super p)) off (unat (bytes_per_channel h)) dest 0 of
                       Inl e \<Rightarrow> (Inl e, p)
                     | Inr dest' \<Rightarrow>
                         (case pop_finish L p hp of
                            (Inl e, p') \<Rightarrow> (Inl e, p')
                          | (Inr u, p') \<Rightarrow> (Inr dest', p')))))"

text \<open>
  A read visitor is called with a pointer to the channel's bytes, their number and the index
  of the channel.
\<close>

type_synonym 's read_visitor = "byte list \<Rightarrow> size_type \<Rightarrow> size_type \<Rightarrow> 's \<Rightarrow> 's"

definition period_pop_visitor :: "layout \<Rightarrow> period_ringbuffer \<Rightarrow> 's read_visitor \<Rightarrow> 's
                            \<Rightarrow> (fault + 's) \<times> period_ringbuffer" where
  "period_pop_visitor L p data_fun st =
     (case read_hdr p of
        None \<Rightarrow> (Inl LogicError, p)
      | Some hp \<Rightarrow>
          if chans_to_read p = 0 then (Inl LogicError, p)
          else
            (case hdr_at L (buf (super p)) hp of
               Inl e \<Rightarrow> (Inl e, p)
             | Inr h \<Rightarrow>
                 let off = unat (read_offset p) + unat (sizeof_info L) +
                           unat (bytes_per_channel h * (nchannels h - chans_to_read p))
                 in (case view (buf (super p)) off (unat (bytes_per_channel h)) of
                       Inl e \<Rightarrow> (Inl e, p)
                     | Inr bs \<Rightarrow>
                         let st' = data_fun bs (bytes_per_channel h)
                                     (nchannels h - chans_to_read p) st
                         in (case pop_finish L p hp of
                               (Inl e, p') \<Rightarrow> (Inl e, p')
                             | (Inr u, p') \<Rightarrow> (Inr st', p')))))"


subsection \<open>Sequences of calls\<close>

text \<open>
  A caller's calls one after the other, with what each returned. A call that fails leaves
  its fault in the list and the next call goes on from the object as the failed call left it.
  \<open>Visit_channel\<close> is the visitor form of \<open>pop\<close> with a visitor that notes what it is
  called with: the bytes, their number and the channel index.
\<close>

datatype period_call =
    Reserve size_type size_type size_type
  | Push_channel "byte list"
  | Request
  | Pop_channel "byte list"
  | Visit_channel

datatype period_result =
    Reserved size_type
  | Pushed
  | Requested "period_info_t option"
  | Popped "byte list"
  | Visited "(byte list \<times> size_type \<times> size_type) list"
  | Failed fault

fun call :: "layout \<Rightarrow> period_call \<Rightarrow> period_ringbuffer \<Rightarrow> period_result \<times> period_ringbuffer" where
  "call L (Reserve t nb nch) p =
     (case reserve L p t nb nch of (Inl e, p') \<Rightarrow> (Failed e, p') | (Inr n, p') \<Rightarrow> (Reserved n, p'))"
| "call L (Push_channel src) p =
     (case period_push L p src of (Inl e, p') \<Rightarrow> (Failed e, p') | (Inr u, p') \<Rightarrow> (Pushed, p'))"
| "call L Request p =
     (case request L p of (Inl e, p') \<Rightarrow> (Failed e, p') | (Inr h, p') \<Rightarrow> (Requested h, p'))"
| "call L (Pop_channel dest) p =
     (case period_pop L p dest of (Inl e, p') \<Rightarrow> (Failed e, p') | (Inr d, p') \<Rightarrow> (Popped d, p'))"
| "call L Visit_channel p =
     (case period_pop_visitor L p (\<lambda>bs n c seen. seen @ [(bs, n, c)]) [] of
        (Inl e, p') \<Rightarrow> (Failed e, p')
      | (Inr seen, p') \<Rightarrow> (Visited seen, p'))"

fun calls :: "layout \<Rightarrow> period_call list \<Rightarrow> period_ringbuffer
                \<Rightarrow> period_result list \<times> period_ringbuffer" where
  "calls L [] p = ([], p)"
| "calls L (c # cs) p =
     (case call L c p of (r, p') \<Rightarrow> (case calls L cs p' of (rs, p'') \<Rightarrow> (r # rs, p'')))"


section \<open>The trigger gate (JILL.h)\<close>

text \<open>
  \<open>trigger_data_t\<close> as \<open>JILL.h\<close> declares it. \<open>sample_t\<close> and the two window lengths in
  seconds are floating-point numbers; nothing below computes with them, so their type is
  a parameter.
\<close>

record 'f trigger_data_t =
  state :: int
  open_threshold :: 'f
  close_threshold :: 'f
  open_window :: 'f
  close_window :: 'f
  crossings_per_open_window :: int
  crossings_per_close_window :: int
  buffers_per_open_window :: int
  buffers_per_close_window :: int
  nopen_crossings :: "int list"
  nclose_crossings :: "int list"
  open_idx :: int
  close_idx :: int
  samples_processed :: int

text \<open>
  Modelled from the spec: how the two states are written in the \<open>int\<close> field \<open>state\<close> is
  fixed by \<open>JILL.c\<close>, which is not among the sources. The spec names the states closed and
  open; they are taken as 0 and 1.
\<close>

definition closed :: int where "closed = 0"

definition opened :: int where "opened = 1"

text \<open>
  One step of a circular history: store the count at the cursor, move the cursor on modulo
  the window length, add up the whole window. An index outside the array is \<open>OutOfBounds\<close>,
  a window of no buffers \<open>DivisionByZero\<close>.
\<close>

definition record_crossings :: "int list \<Rightarrow> int \<Rightarrow> int \<Rightarrow> int \<Rightarrow> fault + (int list \<times> int \<times> int)" where
  "record_crossings history idx window n =
     (if idx < 0 \<or> int (length history) \<le> idx \<or> int (length history) < window then Inl OutOfBounds
      else if window = 0 then Inl DivisionByZero
      else
        let history' = history[nat idx := n] in
        Inr (history', (idx + 1) mod window, sum_list (take (nat window) history')))"

text \<open>
  Modelled from the spec: \<open>JILL_trigger_calc_new_state\<close> is declared in \<open>JILL.h\<close> and defined
  in \<open>JILL.c\<close>, which is not among the sources. The spec (4.4, \<open>update\<close>): the crossing count
  of the buffer is computed against the threshold of the current state, written into the
  history of the current state's window at the cursor, the cursor advances modulo the window
  length, the window is summed; closed and sum \<open>\<ge> crossings_per_open_window\<close> opens, open and
  sum \<open>< crossings_per_close_window\<close> closes, otherwise the state stays; the state is
  returned. \<open>JILL_trigger_get_crossings\<close> is not among the sources either and is the
  parameter \<open>get_crossings\<close>. The spec does not say what \<open>update\<close> does with the sample
  counter, which the model leaves alone; counts and sums are integers without a bound.
\<close>

definition JILL_trigger_calc_new_state ::
    "('f \<Rightarrow> 'b \<Rightarrow> int) \<Rightarrow> 'f trigger_data_t \<Rightarrow> 'b \<Rightarrow> fault + (int \<times> 'f trigger_data_t)" where
  "JILL_trigger_calc_new_state get_crossings trigger buffer =
     (if state trigger = closed then
        (case record_crossings (nopen_crossings trigger) (open_idx trigger)
                (buffers_per_open_window trigger)
                (get_crossings (open_threshold trigger) buffer) of
           Inl e \<Rightarrow> Inl e
         | Inr (history, idx, tot) \<Rightarrow>
             let s = (if tot \<ge> crossings_per_open_window trigger then opened else closed) in
             Inr (s, trigger\<lparr>nopen_crossings := history, open_idx := idx, state := s\<rparr>))
      else
        (case record_crossings (nclose_crossings trigger) (close_idx trigger)
                (buffers_per_close_window trigger)
                (get_crossings (close_threshold trigger) buffer) of
           Inl e \<Rightarrow> Inl e
         | Inr (history, idx, tot) \<Rightarrow>
             let s = (if tot < crossings_per_close_window trigger then closed else state trigger) in
             Inr (s, trigger\<lparr>nclose_crossings := history, close_idx := idx, state := s\<rparr>)))"

section \<open>Properties\<close>


subsection \<open>Index arithmetic on a power-of-two size\<close>

lemma unat_pow2: "k < 64 \<Longrightarrow> unat ((2::size_type) ^ k) = 2 ^ k"
proof -
  assume k: "k < 64"
  have "(2::size_type) ^ k = of_nat (2 ^ k)" by simp
  then have "unat ((2::size_type) ^ k) = (2 ^ k) mod 2 ^ LENGTH(64)"
    by (simp only: unat_of_nat)
  moreover have "(2::nat) ^ k < 2 ^ LENGTH(64)"
    by (rule power_strict_increasing) (use k in simp_all)
  ultimately show ?thesis by (simp only: mod_less)
qed

lemma unat_and_pow2_mask: "unat ((x::size_type) AND (2 ^ k - 1)) = unat x mod 2 ^ k"
proof -
  have "x AND (2 ^ k - 1) = take_bit k x"
    by (simp add: take_bit_eq_mask mask_eq_exp_minus_1)
  then have "unat (x AND (2 ^ k - 1)) = take_bit k (unat x)"
    by (simp only: unsigned_take_bit_eq)
  then show ?thesis
    by (simp only: take_bit_eq_mod)
qed

lemma wf_unat_size: "wf_rb k rb \<Longrightarrow> unat (rsize rb) = 2 ^ k"
  by (simp only: wf_rb_def unat_pow2)

lemma wf_size_eq: "wf_rb k rb \<Longrightarrow> rsize rb = 2 ^ k"
  unfolding wf_rb_def by blast

lemma wf_unat_mask: "wf_rb k rb \<Longrightarrow> unat (x AND size_mask rb) = unat x mod 2 ^ k"
  by (simp only: wf_rb_def unat_and_pow2_mask)

lemma wf_length:
  assumes wf: "wf_rb k rb"
  shows "length (buf rb) = 2 ^ k"
proof -
  have "length (buf rb) = unat (rsize rb)" using wf unfolding wf_rb_def by blast
  then show ?thesis by (simp only: wf_unat_size [OF wf])
qed

lemma wf_read_lt:
  assumes "wf_rb k rb"
  shows "unat (read_ptr rb) < 2 ^ k"
proof -
  from assms have "read_ptr rb < rsize rb" unfolding wf_rb_def by blast
  then have "unat (read_ptr rb) < unat (rsize rb)" by (simp only: word_less_nat_alt)
  then show ?thesis by (simp only: wf_unat_size [OF assms])
qed

lemma wf_write_lt:
  assumes "wf_rb k rb"
  shows "unat (write_ptr rb) < 2 ^ k"
proof -
  from assms have "write_ptr rb < rsize rb" unfolding wf_rb_def by blast
  then have "unat (write_ptr rb) < unat (rsize rb)" by (simp only: word_less_nat_alt)
  then show ?thesis by (simp only: wf_unat_size [OF assms])
qed

lemma pow2_le_len: "k < 64 \<Longrightarrow> (2::nat) ^ k * 2 \<le> 2 ^ LENGTH(64)"
proof -
  assume "k < 64"
  then have "Suc k \<le> LENGTH(64)" by simp
  then have "(2::nat) ^ Suc k \<le> 2 ^ LENGTH(64)"
    by (rule power_increasing) simp
  then show ?thesis by (simp only: power_Suc mult.commute)
qed

lemma unat_wrapped_diff:
  fixes a b :: size_type
  assumes k: "k < 64" and ab: "a < b" and b: "unat b < 2 ^ k"
  shows "unat ((a - b + 2 ^ k) AND (2 ^ k - 1)) = 2 ^ k - (unat b - unat a)"
proof -
  have lt: "unat a < unat b" using ab by (simp only: word_less_nat_alt)
  have d: "unat (b - a) = unat b - unat a"
    using ab by (intro unat_sub) simp
  have e: "a - b + 2 ^ k = 2 ^ k - (b - a)" by simp
  have "unat (b - a) \<le> unat ((2::size_type) ^ k)"
    using d b by (simp only: unat_pow2 [OF k])
  then have "b - a \<le> 2 ^ k"
    by (simp only: word_le_nat_alt)
  then have "unat (2 ^ k - (b - a)) = unat ((2::size_type) ^ k) - unat (b - a)"
    by (rule unat_sub)
  then have f: "unat (2 ^ k - (b - a)) = 2 ^ k - (unat b - unat a)"
    by (simp only: d unat_pow2 [OF k])
  have "unat ((2 ^ k - (b - a)) AND (2 ^ k - 1)) = (2 ^ k - (unat b - unat a)) mod 2 ^ k"
    by (simp only: unat_and_pow2_mask f)
  also have "\<dots> = 2 ^ k - (unat b - unat a)"
    using lt b by (intro mod_less) linarith
  finally show ?thesis
    by (simp only: e)
qed

lemma unat_read_space:
  assumes wf: "wf_rb k rb"
  shows "unat (read_space rb) =
     (if unat (read_ptr rb) \<le> unat (write_ptr rb)
      then unat (write_ptr rb) - unat (read_ptr rb)
      else 2 ^ k - (unat (read_ptr rb) - unat (write_ptr rb)))"
proof -
  let ?w = "write_ptr rb" and ?r = "read_ptr rb"
  have k: "k < 64" and sz: "rsize rb = 2 ^ k" and m: "size_mask rb = 2 ^ k - 1"
    using wf unfolding wf_rb_def by simp_all
  have rl: "unat ?r < 2 ^ k" using wf by (rule wf_read_lt)
  consider (gt) "?r < ?w" | (lt) "?w < ?r" | (eq) "?w = ?r"
    by (rule linorder_cases)
  then show ?thesis
  proof cases
    case gt
    then have "unat (?w - ?r) = unat ?w - unat ?r"
      by (intro unat_sub) simp
    moreover have "read_space rb = ?w - ?r"
      using gt by (simp add: read_space_def)
    moreover have "unat ?r \<le> unat ?w"
      using gt by (simp add: word_less_nat_alt)
    ultimately show ?thesis by simp
  next
    case lt
    have "\<not> ?r < ?w" using lt by simp
    then have rs: "read_space rb = (?w - ?r + 2 ^ k) AND (2 ^ k - 1)"
      using lt by (simp add: read_space_def sz m)
    have "\<not> unat ?r \<le> unat ?w"
      using lt by (simp add: word_less_nat_alt)
    then show ?thesis
      by (simp only: rs unat_wrapped_diff [OF k lt rl] if_False)
  next
    case eq
    then show ?thesis by (simp add: read_space_def)
  qed
qed

lemma unat_write_space:
  assumes wf: "wf_rb k rb"
  shows "unat (write_space rb) =
     (if unat (read_ptr rb) \<le> unat (write_ptr rb)
      then 2 ^ k - 1 - (unat (write_ptr rb) - unat (read_ptr rb))
      else unat (read_ptr rb) - unat (write_ptr rb) - 1)"
proof -
  let ?w = "write_ptr rb" and ?r = "read_ptr rb"
  have k: "k < 64" and sz: "rsize rb = 2 ^ k" and m: "size_mask rb = 2 ^ k - 1"
    using wf unfolding wf_rb_def by simp_all
  have wl: "unat ?w < 2 ^ k" using wf by (rule wf_write_lt)
  have one: "unat (x - 1) = unat x - 1" if "0 < unat x" for x :: size_type
  proof -
    from that have "x \<noteq> 0" by auto
    then show ?thesis by (rule unat_minus_one)
  qed
  consider (gt) "?r < ?w" | (lt) "?w < ?r" | (eq) "?w = ?r"
    by (rule linorder_cases)
  then show ?thesis
  proof cases
    case gt
    have ws: "write_space rb = ((?r - ?w + 2 ^ k) AND (2 ^ k - 1)) - 1"
      using gt by (simp add: write_space_def sz m)
    have lt: "unat ?r < unat ?w"
      using gt by (simp add: word_less_nat_alt)
    have u: "unat ((?r - ?w + 2 ^ k) AND (2 ^ k - 1)) = 2 ^ k - (unat ?w - unat ?r)"
      by (rule unat_wrapped_diff [OF k gt wl])
    have "0 < unat ((?r - ?w + 2 ^ k) AND (2 ^ k - 1))"
      using lt wl unfolding u by linarith
    then have "unat (write_space rb) = 2 ^ k - (unat ?w - unat ?r) - 1"
      by (simp only: ws one u)
    with lt show ?thesis by simp
  next
    case lt
    have "\<not> ?r < ?w" using lt by simp
    then have ws: "write_space rb = (?r - ?w) - 1"
      using lt by (simp add: write_space_def)
    have l: "unat ?w < unat ?r"
      using lt by (simp add: word_less_nat_alt)
    have d: "unat (?r - ?w) = unat ?r - unat ?w"
      using lt by (intro unat_sub) simp
    have "0 < unat (?r - ?w)" using l unfolding d by linarith
    then have "unat (write_space rb) = unat ?r - unat ?w - 1"
      by (simp only: ws one d)
    with l show ?thesis by simp
  next
    case eq
    then have ws: "write_space rb = 2 ^ k - 1"
      by (simp add: write_space_def sz)
    have "0 < unat ((2::size_type) ^ k)"
      unfolding unat_pow2 [OF k] by simp
    then have "unat (write_space rb) = 2 ^ k - 1"
      by (simp only: ws one unat_pow2 [OF k])
    with eq show ?thesis by simp
  qed
qed

lemma space_sum:
  assumes wf: "wf_rb k rb"
  shows "unat (read_space rb) + unat (write_space rb) = 2 ^ k - 1"
proof -
  have "unat (read_ptr rb) < 2 ^ k" "unat (write_ptr rb) < 2 ^ k"
    using wf by (rule wf_read_lt, rule wf_write_lt)
  then show ?thesis
    by (simp only: unat_read_space [OF wf] unat_write_space [OF wf] split: if_split) linarith
qed

lemma space_sum_word:
  assumes wf: "wf_rb k rb"
  shows "read_space rb + write_space rb = rsize rb - 1"
proof -
  have k: "k < 64" using wf unfolding wf_rb_def by blast
  have "(2::nat) ^ k < 2 ^ LENGTH(64)"
    by (rule power_strict_increasing) (use k in simp_all)
  then have "unat (read_space rb) + unat (write_space rb) < 2 ^ LENGTH(64)"
    unfolding space_sum [OF wf] by simp
  then have "unat (read_space rb + write_space rb) = unat (read_space rb) + unat (write_space rb)"
    by (simp only: unat_add_lem)
  moreover have "unat (rsize rb - 1) = unat (rsize rb) - 1"
  proof (rule unat_minus_one)
    have "unat (rsize rb) \<noteq> 0" unfolding wf_unat_size [OF wf] by simp
    then show "rsize rb \<noteq> 0" by auto
  qed
  ultimately have "unat (read_space rb + write_space rb) = unat (rsize rb - 1)"
    by (simp only: space_sum [OF wf] wf_unat_size [OF wf])
  then show ?thesis by (rule word_unat_eq_iff [THEN iffD2])
qed

lemma unat_ptr_add:
  fixes p n :: size_type
  assumes k: "k < 64"
  shows "unat ((p + n) AND (2 ^ k - 1)) = (unat p + unat n) mod 2 ^ k"
proof -
  have dv: "(2::nat) ^ k dvd 2 ^ LENGTH(64)"
    by (rule le_imp_power_dvd) (use k in simp)
  have "unat ((p + n) AND (2 ^ k - 1)) = unat (p + n) mod 2 ^ k"
    by (rule unat_and_pow2_mask)
  also have "unat (p + n) = (unat p + unat n) mod 2 ^ LENGTH(64)"
    by (simp only: unat_word_ariths)
  also have "(unat p + unat n) mod 2 ^ LENGTH(64) mod 2 ^ k = (unat p + unat n) mod 2 ^ k"
    using dv by (rule mod_mod_cancel)
  finally show ?thesis .
qed

lemma wf_ptr_add:
  assumes wf: "wf_rb k rb"
  shows "unat ((p + n) AND size_mask rb) = (unat p + unat n) mod 2 ^ k"
proof -
  have k: "k < 64" and m: "size_mask rb = 2 ^ k - 1"
    using wf unfolding wf_rb_def by simp_all
  show ?thesis unfolding m by (rule unat_ptr_add [OF k])
qed

lemma wf_masked_lt:
  assumes wf: "wf_rb k rb"
  shows "x AND size_mask rb < rsize rb"
proof -
  have "unat (x AND size_mask rb) < 2 ^ k"
    unfolding wf_unat_mask [OF wf] by simp
  then have "unat (x AND size_mask rb) < unat (rsize rb)"
    by (simp only: wf_unat_size [OF wf])
  then show ?thesis by (simp only: word_less_nat_alt)
qed

lemma unat_add_below:
  fixes p n :: size_type
  assumes k: "k < 64" and p: "unat p < 2 ^ k" and n: "unat n < 2 ^ k"
  shows "unat (p + n) = unat p + unat n"
proof -
  have "unat p + unat n < 2 ^ k * 2" using p n by linarith
  also have "\<dots> \<le> 2 ^ LENGTH(64)" using k by (rule pow2_le_len)
  finally show ?thesis by (simp only: unat_add_lem)
qed

lemma runs_nowrap:
  assumes wf: "wf_rb k rb" and p: "unat p < 2 ^ k" and n: "unat n < 2 ^ k"
    and le: "unat p + unat n \<le> 2 ^ k"
  shows "runs rb p n = (n, 0)"
proof -
  have k: "k < 64" using wf unfolding wf_rb_def by blast
  have "unat (p + n) \<le> unat (rsize rb)"
    using le by (simp only: unat_add_below [OF k p n] wf_unat_size [OF wf])
  then have "\<not> rsize rb < p + n"
    by (simp only: word_less_nat_alt not_less)
  then show ?thesis by (simp add: runs_def)
qed

lemma runs_wrap:
  assumes wf: "wf_rb k rb" and p: "unat p < 2 ^ k" and n: "unat n < 2 ^ k"
    and gt: "2 ^ k < unat p + unat n"
  shows "runs rb p n = (rsize rb - p, (p + n) AND size_mask rb)"
    and "unat (rsize rb - p) = 2 ^ k - unat p"
    and "unat ((p + n) AND size_mask rb) = unat p + unat n - 2 ^ k"
    and "(p + n) AND size_mask rb \<noteq> 0"
    and "(p + (rsize rb - p)) AND size_mask rb = 0"
proof -
  have k: "k < 64" using wf unfolding wf_rb_def by blast
  have "unat (rsize rb) < unat (p + n)"
    using gt by (simp only: unat_add_below [OF k p n] wf_unat_size [OF wf])
  then have "rsize rb < p + n"
    by (simp only: word_less_nat_alt)
  then show "runs rb p n = (rsize rb - p, (p + n) AND size_mask rb)"
    by (simp add: runs_def)
  have "unat p \<le> unat (rsize rb)"
    using p unfolding wf_unat_size [OF wf] by linarith
  then have "p \<le> rsize rb" by (simp only: word_le_nat_alt)
  then have "unat (rsize rb - p) = unat (rsize rb) - unat p" by (rule unat_sub)
  then show "unat (rsize rb - p) = 2 ^ k - unat p"
    by (simp only: wf_unat_size [OF wf])
  have "(unat p + unat n) mod 2 ^ k = (unat p + unat n - 2 ^ k) mod 2 ^ k"
    using gt by (simp add: le_mod_geq)
  also have "\<dots> = unat p + unat n - 2 ^ k"
    using p n by (intro mod_less) linarith
  finally show u: "unat ((p + n) AND size_mask rb) = unat p + unat n - 2 ^ k"
    by (simp only: wf_ptr_add [OF wf])
  have "0 < unat ((p + n) AND size_mask rb)" unfolding u using gt by linarith
  then show "(p + n) AND size_mask rb \<noteq> 0" by auto
  have "unat (rsize rb AND size_mask rb) = 0"
    by (simp only: wf_unat_mask [OF wf] wf_unat_size [OF wf] mod_self)
  then have "rsize rb AND size_mask rb = 0" by (simp only: unat_eq_zero)
  then show "(p + (rsize rb - p)) AND size_mask rb = 0" by simp
qed

lemma to_read_bound:
  assumes wf: "wf_rb k rb"
  shows "unat (if cnt = 0 then read_space rb else min (read_space rb) cnt) \<le> unat (read_space rb)"
    and "unat (read_space rb) < 2 ^ k"
proof -
  show "unat (if cnt = 0 then read_space rb else min (read_space rb) cnt) \<le> unat (read_space rb)"
    by (simp add: word_le_nat_alt [symmetric])
  have "unat (read_space rb) \<le> 2 ^ k - 1" using space_sum [OF wf] by linarith
  moreover have "0 < (2::nat) ^ k" by simp
  ultimately show "unat (read_space rb) < 2 ^ k" by linarith
qed

lemma to_write_bound:
  assumes wf: "wf_rb k rb"
  shows "unat (if write_space rb < cnt then write_space rb else cnt) \<le> unat (write_space rb)"
    and "unat (write_space rb) < 2 ^ k"
    and "unat (if write_space rb < cnt then write_space rb else cnt) = min (unat cnt) (unat (write_space rb))"
proof -
  show "unat (if write_space rb < cnt then write_space rb else cnt) \<le> unat (write_space rb)"
    by (simp add: word_le_nat_alt [symmetric] not_less)
  have "unat (write_space rb) \<le> 2 ^ k - 1" using space_sum [OF wf] by linarith
  moreover have "0 < (2::nat) ^ k" by simp
  ultimately show "unat (write_space rb) < 2 ^ k" by linarith
  show "unat (if write_space rb < cnt then write_space rb else cnt) = min (unat cnt) (unat (write_space rb))"
    by (simp add: word_less_nat_alt min_def)
qed

lemma to_write_min: "(if write_space rb < cnt then write_space rb else cnt) = min cnt (write_space rb)"
  by (auto simp: min_def not_less)

lemma free_plus_used:
  assumes wf: "wf_rb k rb" and n: "unat n \<le> unat (write_space rb)"
  shows "unat n + (if unat (read_ptr rb) \<le> unat (write_ptr rb)
                   then unat (write_ptr rb) - unat (read_ptr rb)
                   else 2 ^ k - (unat (read_ptr rb) - unat (write_ptr rb))) < 2 ^ k"
proof -
  have "0 < (2::nat) ^ k" by simp
  then show ?thesis
    using n space_sum [OF wf] unfolding unat_read_space [OF wf] by linarith
qed

subsection \<open>Every operation keeps the buffer well-formed\<close>

lemma wf_read_update:
  assumes wf: "wf_rb k rb"
  shows "wf_rb k (rb\<lparr>read_ptr := x AND size_mask rb\<rparr>)"
  using wf wf_masked_lt [OF wf, of x] unfolding wf_rb_def by auto

lemma wf_write_update:
  assumes wf: "wf_rb k rb" and len: "length b = length (buf rb)"
  shows "wf_rb k (rb\<lparr>buf := b, write_ptr := x AND size_mask rb\<rparr>)"
  using wf len wf_masked_lt [OF wf, of x] unfolding wf_rb_def by auto

lemma std_copy_length: "std_copy src first n dst off = Inr b \<Longrightarrow> length b = length dst"
  by (auto simp: std_copy_def split: if_splits)

lemma advance_wf: "wf_rb k rb \<Longrightarrow> wf_rb k (fst (advance rb cnt))"
  by (simp add: advance_def Let_def wf_read_update)

lemma flush_wf: "wf_rb k rb \<Longrightarrow> wf_rb k (fst (flush rb cnt))"
  by (simp add: flush_def Let_def wf_read_update)

lemma push_wf:
  assumes wf: "wf_rb k rb" and p: "push rb src cnt = Inr (rb', n)"
  shows "wf_rb k rb'"
proof (cases "write_space rb = 0")
  case True
  with p wf show ?thesis by (simp add: push_def)
next
  case False
  obtain n1 n2 where r: "runs rb (write_ptr rb)
      (if write_space rb < cnt then write_space rb else cnt) = (n1, n2)"
    by (cases "runs rb (write_ptr rb) (if write_space rb < cnt then write_space rb else cnt)")
  obtain b1 where c1: "std_copy src 0 (unat n1) (buf rb) (unat (write_ptr rb)) = Inr b1"
    using p False r by (auto simp: push_def Let_def split: sum.splits)
  have l1: "length b1 = length (buf rb)" using c1 by (rule std_copy_length)
  show ?thesis
  proof (cases "n2 = 0")
    case True
    then have "rb' = rb\<lparr>buf := b1, write_ptr := (write_ptr rb + n1) AND size_mask rb\<rparr>"
      using p False r c1 by (simp add: push_def Let_def)
    then show ?thesis using wf_write_update [OF wf l1] by simp
  next
    case n2: False
    then obtain b2 where c2: "std_copy src (unat n1) (unat n2) b1
        (unat ((write_ptr rb + n1) AND size_mask rb)) = Inr b2"
      using p False r c1 by (auto simp: push_def Let_def split: sum.splits)
    have l2: "length b2 = length (buf rb)" using c2 l1 by (simp add: std_copy_length)
    have "rb' = rb\<lparr>buf := b2,
        write_ptr := (((write_ptr rb + n1) AND size_mask rb) + n2) AND size_mask rb\<rparr>"
      using p False r c1 c2 n2 by (simp add: push_def Let_def)
    then show ?thesis using wf_write_update [OF wf l2] by simp
  qed
qed

lemma pop_wf:
  assumes wf: "wf_rb k rb" and p: "pop rb f cnt st = Inr (rb', st', n)"
  shows "wf_rb k rb'"
proof -
  let ?n = "if cnt = 0 then read_space rb else min (read_space rb) cnt"
  show ?thesis
  proof (cases "?n = 0")
    case True
    with p wf show ?thesis by (simp add: pop_def Let_def)
  next
    case False
    obtain n1 n2 where r: "runs rb (read_ptr rb) ?n = (n1, n2)"
      by (cases "runs rb (read_ptr rb) ?n")
    show ?thesis
    proof (cases "n2 = 0")
      case True
      then have "rb' = rb\<lparr>read_ptr := (read_ptr rb + n1) AND size_mask rb\<rparr>"
        using p False r by (auto simp: pop_def Let_def split: sum.splits if_splits)
      then show ?thesis using wf_read_update [OF wf] by simp
    next
      case n2: False
      then have "rb' = rb\<lparr>read_ptr :=
          (((read_ptr rb + n1) AND size_mask rb) + n2) AND size_mask rb\<rparr>"
        using p False r by (auto simp: pop_def Let_def split: sum.splits if_splits)
      then show ?thesis using wf_read_update [OF wf] by simp
    qed
  qed
qed

lemma next_power_Some:
  "next_power p sz = Some q \<Longrightarrow> p \<le> q \<and> q < 32 \<and> \<not> push_bit q (1 :: size_type) < sz"
proof (induction p sz rule: next_power.induct)
  case (1 p sz)
  show ?case
  proof (cases "push_bit p (1 :: size_type) < sz")
    case True
    with "1.prems" have p: "\<not> 32 \<le> p" and n: "next_power (Suc p) sz = Some q"
      by (auto simp: next_power.simps [of p sz] split: if_splits)
    from "1.IH" [OF p True n] show ?thesis by simp
  next
    case False
    with "1.prems" show ?thesis
      by (auto simp: next_power.simps [of p sz] split: if_splits)
  qed
qed

lemma Ringbuffer_new_wf:
  assumes "Ringbuffer_new fresh mlock_result sz = Inr rb"
  shows "\<exists>k. next_power 1 sz = Some k \<and> 1 \<le> k \<and> k < 32 \<and> wf_rb k rb \<and> sz \<le> rsize rb"
proof -
  from assms obtain k where np: "next_power 1 sz = Some k"
    and rb: "rb = \<lparr> buf = map fresh [0 ..< unat (push_bit k (1 :: size_type))], write_ptr = 0,
               read_ptr = 0, rsize = push_bit k 1, size_mask = push_bit k 1 - 1 \<rparr>"
    by (auto simp: Ringbuffer_new_def Let_def split: option.splits if_splits)
  from next_power_Some [OF np] have k: "1 \<le> k" "k < 32" and ge: "\<not> push_bit k (1 :: size_type) < sz"
    by simp_all
  have k64: "k < 64" using k by simp
  have p: "push_bit k (1 :: size_type) = 2 ^ k" by (simp add: push_bit_eq_mult)
  have "0 < unat ((2 :: size_type) ^ k)" unfolding unat_pow2 [OF k64] by simp
  then have "(0 :: size_type) < 2 ^ k" by (simp only: word_less_nat_alt unat_0)
  then have "wf_rb k rb"
    unfolding wf_rb_def rb p using k64 by simp
  moreover have "sz \<le> rsize rb" using ge unfolding rb by simp
  ultimately show ?thesis using np k by blast
qed

lemma apply_op_wf:
  assumes "wf_rb k rb" and "apply_op x rb = Inr rb'"
  shows "wf_rb k rb'"
proof (cases x)
  case (Push src cnt)
  with assms show ?thesis by (auto split: sum.splits dest: push_wf)
next
  case (PopDest dst cnt)
  with assms show ?thesis by (auto simp: pop_dest_def split: sum.splits dest: pop_wf)
next
  case (PopVisit f st cnt)
  with assms show ?thesis by (auto split: sum.splits dest: pop_wf)
next
  case (Advance cnt)
  with assms show ?thesis by (auto simp: advance_wf)
next
  case (Flush cnt)
  with assms show ?thesis by (auto simp: flush_wf)
qed

lemma run_ops_wf:
  "wf_rb k rb \<Longrightarrow> run_ops xs rb = Inr rb' \<Longrightarrow> wf_rb k rb'"
proof (induction xs arbitrary: rb)
  case Nil
  then show ?case by simp
next
  case (Cons x xs)
  from Cons.prems(2) obtain rb1 where a: "apply_op x rb = Inr rb1" and r: "run_ops xs rb1 = Inr rb'"
    by (auto split: sum.splits)
  from apply_op_wf [OF Cons.prems(1) a] Cons.IH r show ?case by blast
qed

text \<open>
  Claim C2. After construction and any run of \<open>push\<close>, \<open>pop\<close>, \<open>advance\<close> and
  \<open>flush\<close> calls, \<open>read_space() + write_space() = size - 1\<close>, where the size is the
  power of two chosen by the constructor and never changes.
\<close>

theorem space_invariant:
  assumes "Ringbuffer_new fresh mlock_result sz = Inr rb0"
    and "run_ops ops rb0 = Inr rb"
  shows "read_space rb + write_space rb = rsize rb - 1 \<and>
         unat (read_space rb) + unat (write_space rb) = unat (rsize rb) - 1 \<and>
         rsize rb = rsize rb0 \<and>
         (\<exists>k. next_power 1 sz = Some k \<and> rsize rb = 2 ^ k)"
proof -
  from Ringbuffer_new_wf [OF assms(1)] obtain k
    where np: "next_power 1 sz = Some k" and wf0: "wf_rb k rb0" by blast
  have wf: "wf_rb k rb" using wf0 assms(2) by (rule run_ops_wf)
  have "rsize rb = rsize rb0" by (simp only: wf_size_eq [OF wf] wf_size_eq [OF wf0])
  moreover have "unat (read_space rb) + unat (write_space rb) = unat (rsize rb) - 1"
    by (simp only: space_sum [OF wf] wf_unat_size [OF wf])
  ultimately show ?thesis
    using space_sum_word [OF wf] np wf_size_eq [OF wf] by blast
qed

theorem space_invariant_witness:
  "Ringbuffer_new (\<lambda>i. 0 :: nat) 0 4
     = Inr \<lparr>buf = [0, 0, 0, 0], write_ptr = 0, read_ptr = 0, rsize = 4, size_mask = 3\<rparr> \<and>
   run_ops [Push [1, 2, 3] 3, PopDest [0, 0] 2, Flush 5, Push [4, 5, 6] 3,
            PopVisit collector [] 0, Advance 0]
     \<lparr>buf = [0, 0, 0, 0 :: nat], write_ptr = 0, read_ptr = 0, rsize = 4, size_mask = 3\<rparr>
     = Inr \<lparr>buf = [5, 2, 3, 4], write_ptr = 1, read_ptr = 1, rsize = 4, size_mask = 3\<rparr> \<and>
   read_space \<lparr>buf = [5, 2, 3, 4 :: nat], write_ptr = 1, read_ptr = 1, rsize = 4, size_mask = 3\<rparr>
     + write_space \<lparr>buf = [5, 2, 3, 4 :: nat], write_ptr = 1, read_ptr = 1, rsize = 4, size_mask = 3\<rparr>
     = 3"
proof -
  let ?init = "\<lparr>buf = [0, 0, 0, 0 :: nat], write_ptr = 0, read_ptr = 0, rsize = 4, size_mask = 3\<rparr>"
  let ?rb = "\<lparr>buf = [5, 2, 3, 4 :: nat], write_ptr = 1, read_ptr = 1, rsize = 4, size_mask = 3\<rparr>"
  let ?ops = "[Push [1, 2, 3] 3, PopDest [0, 0] 2, Flush 5, Push [4, 5, 6] 3,
               PopVisit collector [] 0, Advance 0] :: (nat, nat list) rb_op list"
  have h1: "Ringbuffer_new (\<lambda>i. 0 :: nat) 0 4 = Inr ?init"
    by (simp add: Ringbuffer_new_def next_power.simps upt_rec)
  have h2: "run_ops ?ops ?init = Inr ?rb"
    by (simp add: push_def pop_dest_def pop_def advance_def flush_def read_space_def
        write_space_def runs_def std_copy_def view_def memcopier_def collector_def Let_def)
  from space_invariant [OF h1 h2] have "read_space ?rb + write_space ?rb = rsize ?rb - 1"
    by blast
  with h1 h2 show ?thesis by simp
qed

subsection \<open>What pop returns\<close>

lemma pop_nowrap:
  assumes wf: "wf_rb k rb"
    and n: "n = (if cnt = 0 then read_space rb else min (read_space rb) cnt)"
    and nz: "n \<noteq> 0"
    and le: "unat (read_ptr rb) + unat n \<le> 2 ^ k"
  shows "pop rb f cnt st =
     (case f (take (unat n) (drop (unat (read_ptr rb)) (buf rb))) st of
        Inl e \<Rightarrow> Inl e
      | Inr st1 \<Rightarrow> Inr (rb\<lparr>read_ptr := (read_ptr rb + n) AND size_mask rb\<rparr>, st1, n))"
proof -
  have nl: "unat n < 2 ^ k"
    using to_read_bound(1) [OF wf, of cnt] to_read_bound(2) [OF wf] unfolding n by linarith
  have r: "runs rb (read_ptr rb) n = (n, 0)"
    using wf wf_read_lt [OF wf] nl le by (rule runs_nowrap)
  have v: "view (buf rb) (unat (read_ptr rb)) (unat n)
      = Inr (take (unat n) (drop (unat (read_ptr rb)) (buf rb)))"
    using le by (simp add: view_def wf_length [OF wf])
  show ?thesis
    using nz r v unfolding pop_def n [symmetric] 
    by (simp add: Let_def split: sum.splits)
qed

lemma pop_wrap:
  assumes wf: "wf_rb k rb"
    and n: "n = (if cnt = 0 then read_space rb else min (read_space rb) cnt)"
    and gt: "2 ^ k < unat (read_ptr rb) + unat n"
  shows "pop rb f cnt st =
     (case f (drop (unat (read_ptr rb)) (buf rb)) st of
        Inl e \<Rightarrow> Inl e
      | Inr st1 \<Rightarrow>
         (case f (take (unat (read_ptr rb) + unat n - 2 ^ k) (buf rb)) st1 of
            Inl e \<Rightarrow> Inl e
          | Inr st2 \<Rightarrow> Inr (rb\<lparr>read_ptr := (read_ptr rb + n) AND size_mask rb\<rparr>, st2, n)))"
proof -
  let ?r = "read_ptr rb"
  have nl: "unat n < 2 ^ k"
    using to_read_bound(1) [OF wf, of cnt] to_read_bound(2) [OF wf] unfolding n by linarith
  have rl: "unat ?r < 2 ^ k" using wf by (rule wf_read_lt)
  note rw = runs_wrap [OF wf rl nl gt]
  have len: "length (buf rb) = 2 ^ k" using wf by (rule wf_length)
  have nz: "n \<noteq> 0" using gt rl by auto
  have v1: "view (buf rb) (unat ?r) (unat (rsize rb - ?r)) = Inr (drop (unat ?r) (buf rb))"
    using rl len unfolding view_def rw(2) by simp
  have v2: "view (buf rb) 0 (unat ((?r + n) AND size_mask rb))
      = Inr (take (unat ?r + unat n - 2 ^ k) (buf rb))"
    using rl nl len unfolding view_def rw(3) by simp
  have z: "(0 + ((?r + n) AND size_mask rb)) AND size_mask rb = (?r + n) AND size_mask rb"
    by (simp add: and.assoc)
  show ?thesis
    using nz v1 v2 rw(4) z unfolding pop_def n [symmetric] Let_def rw(1) prod.case rw(5)
    by (simp split: sum.splits)
qed

lemma read_all_ptr:
  assumes wf: "wf_rb k rb"
  shows "(read_ptr rb + read_space rb) AND size_mask rb = write_ptr rb"
proof -
  let ?r = "unat (read_ptr rb)" and ?w = "unat (write_ptr rb)"
  have rl: "?r < 2 ^ k" using wf by (rule wf_read_lt)
  have wl: "?w < 2 ^ k" using wf by (rule wf_write_lt)
  have "(?r + unat (read_space rb)) mod 2 ^ k = ?w"
  proof (cases "?r \<le> ?w")
    case True
    then have "?r + unat (read_space rb) = ?w"
      unfolding unat_read_space [OF wf] by simp
    then show ?thesis using wl by simp
  next
    case False
    then have "?r + unat (read_space rb) = 2 ^ k + ?w"
      unfolding unat_read_space [OF wf] using rl by simp
    then show ?thesis using wl by simp
  qed
  then have "unat ((read_ptr rb + read_space rb) AND size_mask rb) = ?w"
    by (simp only: wf_ptr_add [OF wf])
  then show ?thesis by (rule word_unat_eq_iff [THEN iffD2])
qed

lemma read_space_empty: "read_space (rb\<lparr>read_ptr := write_ptr rb\<rparr>) = 0"
  by (simp add: read_space_def)

lemma pop_result:
  assumes wf: "wf_rb k rb"
    and n: "n = (if cnt = 0 then read_space rb else min (read_space rb) cnt)"
    and p: "pop rb f cnt st = Inr (rb', st', m)"
  shows "m = n \<and> rb' = (if n = 0 then rb else rb\<lparr>read_ptr := (read_ptr rb + n) AND size_mask rb\<rparr>)"
proof (cases "n = 0")
  case True
  then show ?thesis using p unfolding pop_def n [symmetric] by (simp add: Let_def)
next
  case nz: False
  show ?thesis
  proof (cases "unat (read_ptr rb) + unat n \<le> 2 ^ k")
    case True
    show ?thesis
      using p nz unfolding pop_nowrap [OF wf n nz True] by (auto split: sum.splits)
  next
    case False
    then have gt: "2 ^ k < unat (read_ptr rb) + unat n" by simp
    show ?thesis
      using p nz unfolding pop_wrap [OF wf n gt] by (auto split: sum.splits)
  qed
qed

lemma pop_returns:
  assumes wf: "wf_rb k rb"
    and n: "n = (if cnt = 0 then read_space rb else min (read_space rb) cnt)"
    and inv: "I st"
    and step: "\<And>xs s. I s \<Longrightarrow> length xs \<le> unat n \<Longrightarrow> \<exists>s'. f xs s = Inr s' \<and> I s'"
  shows "\<exists>rb' st'. pop rb f cnt st = Inr (rb', st', n)"
proof (cases "n = 0")
  case True
  then show ?thesis unfolding pop_def n [symmetric] by (simp add: Let_def)
next
  case nz: False
  have nl: "unat n < 2 ^ k"
    using to_read_bound(1) [OF wf, of cnt] to_read_bound(2) [OF wf] unfolding n by linarith
  have len: "length (buf rb) = 2 ^ k" using wf by (rule wf_length)
  have rl: "unat (read_ptr rb) < 2 ^ k" using wf by (rule wf_read_lt)
  show ?thesis
  proof (cases "unat (read_ptr rb) + unat n \<le> 2 ^ k")
    case True
    have "length (take (unat n) (drop (unat (read_ptr rb)) (buf rb))) \<le> unat n" by simp
    from step [OF inv this] show ?thesis
      unfolding pop_nowrap [OF wf n nz True] by auto
  next
    case False
    then have gt: "2 ^ k < unat (read_ptr rb) + unat n" by simp
    have "length (drop (unat (read_ptr rb)) (buf rb)) \<le> unat n"
      using gt len by simp
    from step [OF inv this] obtain s1 where
      s1: "f (drop (unat (read_ptr rb)) (buf rb)) st = Inr s1" and i1: "I s1" by blast
    have "length (take (unat (read_ptr rb) + unat n - 2 ^ k) (buf rb)) \<le> unat n"
      using rl by simp
    from step [OF i1 this] show ?thesis
      unfolding pop_wrap [OF wf n gt] using s1 by auto
  qed
qed

lemma memcopier_ok:
  "length xs \<le> length dst \<Longrightarrow> \<exists>d. memcopier xs dst = Inr d \<and> length d = length dst"
  by (simp add: memcopier_def std_copy_def)

text \<open>
  Claim C10. With a count of 0, \<open>advance\<close> and both forms of \<open>pop\<close> take everything
  that is readable: the value returned is \<open>read_space()\<close> at entry and \<open>read_space()\<close> is
  0 afterwards. The visitor form returns whenever the visitor does, the destination form
  whenever the destination array has room for what is read.
\<close>

theorem zero_count_consumes_all:
  assumes wf: "wf_rb k rb"
  shows "snd (advance rb 0) = read_space rb \<and> read_space (fst (advance rb 0)) = 0 \<and>
    (\<forall>rb' st' n. pop rb f 0 st = Inr (rb', st', n) \<longrightarrow> n = read_space rb \<and> read_space rb' = 0) \<and>
    ((\<forall>xs s. \<exists>s'. f xs s = Inr s') \<longrightarrow> (\<exists>rb' st'. pop rb f 0 st = Inr (rb', st', read_space rb))) \<and>
    (\<forall>rb' dst' n. pop_dest rb dst 0 = Inr (rb', dst', n) \<longrightarrow> n = read_space rb \<and> read_space rb' = 0) \<and>
    (unat (read_space rb) \<le> length dst \<longrightarrow>
       (\<exists>rb' dst'. pop_dest rb dst 0 = Inr (rb', dst', read_space rb)))"
proof -
  have all: "read_space (rb\<lparr>read_ptr := (read_ptr rb + read_space rb) AND size_mask rb\<rparr>) = 0"
    unfolding read_all_ptr [OF wf] by (rule read_space_empty)
  have n: "read_space rb = (if (0::size_type) = 0 then read_space rb else min (read_space rb) 0)"
    by simp
  have a: "snd (advance rb 0) = read_space rb \<and> read_space (fst (advance rb 0)) = 0"
    using all by (simp add: advance_def Let_def)
  have res: "m = read_space rb \<and> read_space rb' = 0"
    if "pop rb g 0 s = Inr (rb', s', m)" for g :: "('a, 'c) visitor" and s rb' s' m
    using pop_result [OF wf n that] all by (auto split: if_splits)
  have b: "\<exists>rb' st'. pop rb f 0 st = Inr (rb', st', read_space rb)"
    if "\<forall>xs s. \<exists>s'. f xs s = Inr s'"
    by (rule pop_returns [OF wf n, where I = "\<lambda>s. True"]) (use that in auto)
  have c: "\<exists>rb' dst'. pop_dest rb dst 0 = Inr (rb', dst', read_space rb)"
    if "unat (read_space rb) \<le> length dst"
    unfolding pop_dest_def
  proof (rule pop_returns [OF wf n, where I = "\<lambda>s. length s = length dst"])
    show "length dst = length dst" ..
  next
    fix xs s :: "'a list"
    assume s: "length s = length dst" and xs: "length xs \<le> unat (read_space rb)"
    then have "length xs \<le> length s" using that by simp
    from memcopier_ok [OF this] show "\<exists>s'. memcopier xs s = Inr s' \<and> length s' = length dst"
      using s by simp
  qed
  show ?thesis using a res [of f st] res [of memcopier dst] b c unfolding pop_dest_def by blast
qed

theorem zero_count_consumes_all_witness:
  "wf_rb 2 \<lparr>buf = [5, 6, 7, 8 :: nat], write_ptr = 1, read_ptr = 2, rsize = 4, size_mask = 3\<rparr> \<and>
   (\<forall>xs s :: nat list. \<exists>s'. collector xs s = Inr s') \<and>
   unat (read_space \<lparr>buf = [5, 6, 7, 8 :: nat], write_ptr = 1, read_ptr = 2, rsize = 4, size_mask = 3\<rparr>)
     \<le> length [0, 0, 0 :: nat] \<and>
   read_space \<lparr>buf = [5, 6, 7, 8 :: nat], write_ptr = 1, read_ptr = 2, rsize = 4, size_mask = 3\<rparr> = 3 \<and>
   advance \<lparr>buf = [5, 6, 7, 8 :: nat], write_ptr = 1, read_ptr = 2, rsize = 4, size_mask = 3\<rparr> 0
     = (\<lparr>buf = [5, 6, 7, 8], write_ptr = 1, read_ptr = 1, rsize = 4, size_mask = 3\<rparr>, 3) \<and>
   pop \<lparr>buf = [5, 6, 7, 8 :: nat], write_ptr = 1, read_ptr = 2, rsize = 4, size_mask = 3\<rparr>
       collector 0 []
     = Inr (\<lparr>buf = [5, 6, 7, 8], write_ptr = 1, read_ptr = 1, rsize = 4, size_mask = 3\<rparr>,
            [7, 8, 5], 3) \<and>
   (\<exists>rb' dst'. pop_dest \<lparr>buf = [5, 6, 7, 8 :: nat], write_ptr = 1, read_ptr = 2, rsize = 4, size_mask = 3\<rparr>
       [0, 0, 0] 0 = Inr (rb', dst', 3) \<and> read_space rb' = 0)"
proof -
  let ?rb = "\<lparr>buf = [5, 6, 7, 8 :: nat], write_ptr = 1, read_ptr = 2, rsize = 4, size_mask = 3\<rparr>"
  have wf: "wf_rb 2 ?rb" by (simp add: wf_rb_def)
  have rs: "read_space ?rb = 3" by (simp add: read_space_def)
  have tot: "\<forall>xs s :: nat list. \<exists>s'. collector xs s = Inr s'" by (simp add: collector_def)
  have room: "unat (read_space ?rb) \<le> length [0, 0, 0 :: nat]" by (simp add: rs)
  have a: "advance ?rb 0
     = (\<lparr>buf = [5, 6, 7, 8], write_ptr = 1, read_ptr = 1, rsize = 4, size_mask = 3\<rparr>, 3)"
    by (simp add: advance_def rs)
  have p: "pop ?rb collector 0 []
     = Inr (\<lparr>buf = [5, 6, 7, 8], write_ptr = 1, read_ptr = 1, rsize = 4, size_mask = 3\<rparr>,
            [7, 8, 5], 3)"
    by (simp add: pop_def rs runs_def view_def collector_def)
  from zero_count_consumes_all [OF wf, of collector "[]" "[0, 0, 0]"] tot room rs
  have "\<exists>rb' dst'. pop_dest ?rb [0, 0, 0] 0 = Inr (rb', dst', 3) \<and> read_space rb' = 0"
    by (metis (no_types, lifting))
  with wf tot room rs a p show ?thesis by blast
qed

subsection \<open>The readable contents\<close>

lemma ring_length:
  "length xs = N \<Longrightarrow> r < N \<Longrightarrow> w < N \<Longrightarrow>
   length (ring r w xs) = (if r \<le> w then w - r else N - (r - w))"
  by (auto simp: ring_def)

lemma ring_drop:
  assumes "length xs = N" "r < N" "w < N"
    and "d \<le> (if r \<le> w then w - r else N - (r - w))"
  shows "ring ((r + d) mod N) w xs = drop d (ring r w xs)"
proof (cases "r \<le> w")
  case True
  with assms have "r + d \<le> w" by simp
  with assms True show ?thesis by (simp add: ring_def drop_take add.commute)
next
  case False
  show ?thesis
  proof (cases "r + d < N")
    case True
    with assms False show ?thesis by (simp add: ring_def add.commute)
  next
    case ge: False
    have le: "r + d - N \<le> w" using assms False by simp
    then have "r + d - N < N" using assms by simp
    with ge have m: "(r + d) mod N = r + d - N"
      by (simp add: le_mod_geq)
    with assms False ge le show ?thesis
      by (simp add: ring_def drop_take add.commute)
  qed
qed

lemma ring_take_nowrap:
  assumes "length xs = N" "r < N" "w < N"
    and "n \<le> (if r \<le> w then w - r else N - (r - w))" and "r + n \<le> N"
  shows "take n (drop r xs) = take n (ring r w xs)"
  using assms by (auto simp: ring_def min_def)

lemma ring_take_wrap:
  assumes "length xs = N" "r < N" "w < N"
    and "n \<le> (if r \<le> w then w - r else N - (r - w))" and "N < r + n"
  shows "drop r xs @ take (r + n - N) xs = take n (ring r w xs)"
  using assms by (auto simp: ring_def min_def add.commute)

lemma ring_push_nowrap:
  assumes "length xs = N" "r < N" "w < N"
    and "length ys + (if r \<le> w then w - r else N - (r - w)) < N" and "w + length ys \<le> N"
  shows "ring r ((w + length ys) mod N) (take w xs @ ys @ drop (w + length ys) xs) = ring r w xs @ ys"
proof (cases "w + length ys = N")
  case True
  with assms show ?thesis by (auto simp: ring_def drop_take)
next
  case False
  with assms have "w + length ys < N" by simp
  with assms show ?thesis by (auto simp: ring_def drop_take)
qed

lemma ring_push_wrap:
  assumes "length xs = N" "r < N" "w < N"
    and "length ys + (if r \<le> w then w - r else N - (r - w)) < N" and "N < w + length ys"
  shows "ring r (w + length ys - N)
           (take (w + length ys - N) (drop (N - w) ys) @
            drop (w + length ys - N) (take w xs @ take (N - w) ys))
         = ring r w xs @ ys"
  using assms by (auto simp: ring_def drop_take)

lemma contents_length:
  assumes wf: "wf_rb k rb"
  shows "length (contents rb) = unat (read_space rb)"
  unfolding contents_def unat_read_space [OF wf]
  by (rule ring_length [OF wf_length [OF wf] wf_read_lt [OF wf] wf_write_lt [OF wf]])

lemma contents_empty:
  assumes wf: "wf_rb k rb" and e: "read_ptr rb = write_ptr rb"
  shows "contents rb = []" and "write_space rb = rsize rb - 1" and "unat (write_space rb) = 2 ^ k - 1"
proof -
  show "contents rb = []" unfolding contents_def ring_def e by simp
  show "write_space rb = rsize rb - 1" unfolding write_space_def e by simp
  show "unat (write_space rb) = 2 ^ k - 1" unfolding unat_write_space [OF wf] e by simp
qed

lemma advance_contents:
  assumes wf: "wf_rb k rb" and d: "unat d \<le> unat (read_space rb)"
  shows "contents (rb\<lparr>read_ptr := (read_ptr rb + d) AND size_mask rb\<rparr>) = drop (unat d) (contents rb)"
    and "unat (read_space (rb\<lparr>read_ptr := (read_ptr rb + d) AND size_mask rb\<rparr>))
           = unat (read_space rb) - unat d"
proof -
  let ?rb' = "rb\<lparr>read_ptr := (read_ptr rb + d) AND size_mask rb\<rparr>"
  have nle: "unat d \<le> (if unat (read_ptr rb) \<le> unat (write_ptr rb)
      then unat (write_ptr rb) - unat (read_ptr rb)
      else 2 ^ k - (unat (read_ptr rb) - unat (write_ptr rb)))"
    using d unfolding unat_read_space [OF wf] .
  show c: "contents ?rb' = drop (unat d) (contents rb)"
    using ring_drop [OF wf_length [OF wf] wf_read_lt [OF wf] wf_write_lt [OF wf] nle]
    unfolding contents_def by (simp add: wf_ptr_add [OF wf])
  have wf': "wf_rb k ?rb'" using wf by (rule wf_read_update)
  have "length (contents ?rb') = length (contents rb) - unat d" unfolding c by simp
  then show "unat (read_space ?rb') = unat (read_space rb) - unat d"
    unfolding contents_length [OF wf] contents_length [OF wf'] .
qed

subsection \<open>What push stores\<close>

lemma push_nowrap:
  assumes wf: "wf_rb k rb"
    and n: "n = (if write_space rb < cnt then write_space rb else cnt)"
    and fr: "write_space rb \<noteq> 0"
    and le: "unat (write_ptr rb) + unat n \<le> 2 ^ k"
    and src: "unat n \<le> length src"
  shows "push rb src cnt =
     Inr (rb\<lparr>buf := take (unat (write_ptr rb)) (buf rb) @ take (unat n) src @
                      drop (unat (write_ptr rb) + unat n) (buf rb),
              write_ptr := (write_ptr rb + n) AND size_mask rb\<rparr>, n)"
proof -
  have nl: "unat n < 2 ^ k"
    using to_write_bound(1) [OF wf, of cnt] to_write_bound(2) [OF wf] unfolding n by linarith
  have r: "runs rb (write_ptr rb) n = (n, 0)"
    using wf wf_write_lt [OF wf] nl le by (rule runs_nowrap)
  have c: "std_copy src 0 (unat n) (buf rb) (unat (write_ptr rb))
      = Inr (take (unat (write_ptr rb)) (buf rb) @ take (unat n) src @
             drop (unat (write_ptr rb) + unat n) (buf rb))"
    using le src by (simp add: std_copy_def wf_length [OF wf])
  show ?thesis
    using fr r c unfolding push_def Let_def n [symmetric] by simp
qed

lemma push_wrap:
  assumes wf: "wf_rb k rb"
    and n: "n = (if write_space rb < cnt then write_space rb else cnt)"
    and gt: "2 ^ k < unat (write_ptr rb) + unat n"
    and src: "unat n \<le> length src"
  shows "push rb src cnt =
     Inr (rb\<lparr>buf := take (unat (write_ptr rb) + unat n - 2 ^ k) (drop (2 ^ k - unat (write_ptr rb)) src) @
                      drop (unat (write_ptr rb) + unat n - 2 ^ k)
                        (take (unat (write_ptr rb)) (buf rb) @ take (2 ^ k - unat (write_ptr rb)) src),
              write_ptr := (write_ptr rb + n) AND size_mask rb\<rparr>, n)"
proof -
  let ?w = "write_ptr rb"
  have nl: "unat n < 2 ^ k"
    using to_write_bound(1) [OF wf, of cnt] to_write_bound(2) [OF wf] unfolding n by linarith
  have wl: "unat ?w < 2 ^ k" using wf by (rule wf_write_lt)
  note rw = runs_wrap [OF wf wl nl gt]
  have len: "length (buf rb) = 2 ^ k" using wf by (rule wf_length)
  have fr: "write_space rb \<noteq> 0"
  proof
    assume "write_space rb = 0"
    then have "n = 0" unfolding n by (simp add: word_gt_0)
    then show False using gt wl by simp
  qed
  have c1: "std_copy src 0 (unat (rsize rb - ?w)) (buf rb) (unat ?w)
      = Inr (take (unat ?w) (buf rb) @ take (2 ^ k - unat ?w) src)"
    using wl len gt src unfolding std_copy_def rw(2) by simp
  have c2: "std_copy src (unat (rsize rb - ?w)) (unat ((?w + n) AND size_mask rb))
        (take (unat ?w) (buf rb) @ take (2 ^ k - unat ?w) src) 0
      = Inr (take (unat ?w + unat n - 2 ^ k) (drop (2 ^ k - unat ?w) src) @
             drop (unat ?w + unat n - 2 ^ k)
                  (take (unat ?w) (buf rb) @ take (2 ^ k - unat ?w) src))"
    using wl nl len gt src unfolding std_copy_def rw(2) rw(3) by simp
  have z: "(0 + ((?w + n) AND size_mask rb)) AND size_mask rb = (?w + n) AND size_mask rb"
    by (simp add: and.assoc)
  show ?thesis
    using fr c1 c2 rw(4) z unfolding push_def Let_def n [symmetric] rw(1) prod.case rw(5)
    by simp
qed

lemma push_effect:
  assumes wf: "wf_rb k rb"
    and n: "n = min cnt (write_space rb)"
    and src: "unat n \<le> length src"
  shows "\<exists>rb'. push rb src cnt = Inr (rb', n) \<and>
           contents rb' = contents rb @ take (unat n) src \<and>
           read_ptr rb' = read_ptr rb \<and> wf_rb k rb'"
proof -
  let ?w = "unat (write_ptr rb)" and ?r = "unat (read_ptr rb)" and ?N = "(2::nat) ^ k"
  let ?ys = "take (unat n) src"
  have n': "n = (if write_space rb < cnt then write_space rb else cnt)"
    unfolding n to_write_min ..
  have nle: "unat n \<le> unat (write_space rb)"
    using to_write_bound(1) [OF wf, of cnt] unfolding n' .
  have len: "length (buf rb) = ?N" using wf by (rule wf_length)
  have rl: "?r < ?N" using wf by (rule wf_read_lt)
  have wl: "?w < ?N" using wf by (rule wf_write_lt)
  have ly: "length ?ys = unat n" using src by simp
  have room: "length ?ys + (if ?r \<le> ?w then ?w - ?r else ?N - (?r - ?w)) < ?N"
    unfolding ly using wf nle by (rule free_plus_used)
  show ?thesis
  proof (cases "write_space rb = 0")
    case True
    then have "n = 0" unfolding n' by (simp add: word_gt_0)
    then show ?thesis using True wf by (simp add: push_def)
  next
    case fr: False
    show ?thesis
    proof (cases "?w + unat n \<le> ?N")
      case True
      let ?rb' = "rb\<lparr>buf := take ?w (buf rb) @ ?ys @ drop (?w + unat n) (buf rb),
                      write_ptr := (write_ptr rb + n) AND size_mask rb\<rparr>"
      have p: "push rb src cnt = Inr (?rb', n)"
        by (rule push_nowrap [OF wf n' fr True src])
      have t: "?w + length ?ys \<le> ?N" using True unfolding ly .
      have c: "contents ?rb' = contents rb @ ?ys"
        using ring_push_nowrap [OF len rl wl room t, unfolded ly]
        unfolding contents_def by (simp add: wf_ptr_add [OF wf])
      have "wf_rb k ?rb'" using wf p by (rule push_wf)
      with p c show ?thesis by simp
    next
      case False
      then have gt: "?N < ?w + unat n" by simp
      have nl: "unat n < ?N"
        using nle to_write_bound(2) [OF wf] by linarith
      let ?b = "take (?w + unat n - ?N) (drop (?N - ?w) src) @
                drop (?w + unat n - ?N) (take ?w (buf rb) @ take (?N - ?w) src)"
      let ?rb' = "rb\<lparr>buf := ?b, write_ptr := (write_ptr rb + n) AND size_mask rb\<rparr>"
      have p: "push rb src cnt = Inr (?rb', n)"
        by (rule push_wrap [OF wf n' gt src])
      have e1: "take (?w + unat n - ?N) (drop (?N - ?w) ?ys)
          = take (?w + unat n - ?N) (drop (?N - ?w) src)"
        using gt wl by (simp add: drop_take)
      have "?N - ?w \<le> unat n" using gt by linarith
      then have e2: "take (?N - ?w) ?ys = take (?N - ?w) src"
        by (simp add: min_absorb1)
      have t: "?N < ?w + length ?ys" using gt unfolding ly .
      have "ring ?r (?w + unat n - ?N) ?b = ring ?r ?w (buf rb) @ ?ys"
        using ring_push_wrap [OF len rl wl room t, unfolded ly e1 e2] .
      then have c: "contents ?rb' = contents rb @ ?ys"
        unfolding contents_def
        by (simp add: runs_wrap(3) [OF wf wl nl gt])
      have "wf_rb k ?rb'" using wf p by (rule push_wf)
      with p c show ?thesis by simp
    qed
  qed
qed

text \<open>
  Claim C7. \<open>push(src, count)\<close> on a well-formed buffer, with a source array that holds the
  elements it reads: exactly \<open>min(count, write_space())\<close> elements are appended to what the
  reader can see, that number is returned (a short or zero write is an ordinary return value),
  and the array is written in one run at the write index, or, when the copy passes the end of
  the array, in a first run that fills the array to its end and a second run from index 0.
\<close>

theorem push_copies_min:
  assumes wf: "wf_rb k rb"
    and src: "unat (min cnt (write_space rb)) \<le> length src"
  shows "\<exists>rb' n1 n2.
      push rb src cnt = Inr (rb', min cnt (write_space rb)) \<and>
      contents rb' = contents rb @ take (unat (min cnt (write_space rb))) src \<and>
      unat (read_space rb') = unat (read_space rb) + unat (min cnt (write_space rb)) \<and>
      read_ptr rb' = read_ptr rb \<and>
      n1 + n2 = unat (min cnt (write_space rb)) \<and>
      (n2 = 0 \<and>
         buf rb' = take (unat (write_ptr rb)) (buf rb) @ take n1 src @
                   drop (unat (write_ptr rb) + n1) (buf rb)
       \<or>
       0 < n2 \<and> unat (write_ptr rb) + n1 = 2 ^ k \<and>
         buf rb' = take n2 (drop n1 src) @ drop n2 (take (unat (write_ptr rb)) (buf rb)) @
                   take n1 src)"
proof -
  let ?n = "min cnt (write_space rb)"
  let ?w = "unat (write_ptr rb)" and ?N = "(2::nat) ^ k"
  have n': "?n = (if write_space rb < cnt then write_space rb else cnt)"
    unfolding to_write_min ..
  from push_effect [OF wf refl src] obtain rb' where
    p: "push rb src cnt = Inr (rb', ?n)"
    and c: "contents rb' = contents rb @ take (unat ?n) src"
    and r: "read_ptr rb' = read_ptr rb" and wf': "wf_rb k rb'" by blast
  have "length (contents rb') = length (contents rb) + unat ?n"
    unfolding c using src by simp
  then have rs: "unat (read_space rb') = unat (read_space rb) + unat ?n"
    unfolding contents_length [OF wf] contents_length [OF wf'] .
  have nl: "unat ?n < ?N"
    using to_write_bound(1) [OF wf, of cnt] to_write_bound(2) [OF wf] unfolding n' by linarith
  have wl: "?w < ?N" using wf by (rule wf_write_lt)
  have len: "length (buf rb) = ?N" using wf by (rule wf_length)
  consider (full) "write_space rb = 0"
    | (nowrap) "write_space rb \<noteq> 0" "?w + unat ?n \<le> ?N"
    | (wrap) "?N < ?w + unat ?n" by linarith
  then show ?thesis
  proof cases
    case full
    then have "?n = 0" unfolding n' by (simp add: word_gt_0)
    moreover have "rb' = rb" using p full by (simp add: push_def)
    ultimately have "0 + 0 = unat ?n \<and>
        buf rb' = take ?w (buf rb) @ take 0 src @ drop (?w + 0) (buf rb)" by simp
    with p c rs r show ?thesis by blast
  next
    case nowrap
    have "buf rb' = take ?w (buf rb) @ take (unat ?n) src @ drop (?w + unat ?n) (buf rb)"
      using p unfolding push_nowrap [OF wf n' nowrap src] by auto
    then have "unat ?n + 0 = unat ?n \<and>
        buf rb' = take ?w (buf rb) @ take (unat ?n) src @ drop (?w + unat ?n) (buf rb)" by simp
    with p c rs r show ?thesis by blast
  next
    case wrap
    let ?n1 = "?N - ?w" and ?n2 = "?w + unat ?n - ?N"
    have "buf rb' = take ?n2 (drop ?n1 src) @ drop ?n2 (take ?w (buf rb) @ take ?n1 src)"
      using p unfolding push_wrap [OF wf n' wrap src] by auto
    moreover have "?n2 \<le> ?w" using nl by linarith
    ultimately have b: "buf rb' = take ?n2 (drop ?n1 src) @ drop ?n2 (take ?w (buf rb)) @ take ?n1 src"
      using len wl by simp
    have "?n1 + ?n2 = unat ?n \<and> 0 < ?n2 \<and> ?w + ?n1 = ?N"
      using wrap wl by linarith
    with p c rs r b show ?thesis by blast
  qed
qed

theorem push_copies_min_witness:
  "wf_rb 2 \<lparr>buf = [0, 0, 0, 0 :: nat], write_ptr = 3, read_ptr = 3, rsize = 4, size_mask = 3\<rparr> \<and>
   unat (min 5 (write_space
      \<lparr>buf = [0, 0, 0, 0 :: nat], write_ptr = 3, read_ptr = 3, rsize = 4, size_mask = 3\<rparr>))
     \<le> length [1, 2, 3, 4, 5 :: nat] \<and>
   push \<lparr>buf = [0, 0, 0, 0 :: nat], write_ptr = 3, read_ptr = 3, rsize = 4, size_mask = 3\<rparr>
        [1, 2, 3, 4, 5] 5
     = Inr (\<lparr>buf = [2, 3, 0, 1], write_ptr = 2, read_ptr = 3, rsize = 4, size_mask = 3\<rparr>, 3) \<and>
   contents \<lparr>buf = [2, 3, 0, 1 :: nat], write_ptr = 2, read_ptr = 3, rsize = 4, size_mask = 3\<rparr>
     = [1, 2, 3]"
proof -
  let ?rb = "\<lparr>buf = [0, 0, 0, 0 :: nat], write_ptr = 3, read_ptr = 3, rsize = 4, size_mask = 3\<rparr>"
  let ?res = "\<lparr>buf = [2, 3, 0, 1 :: nat], write_ptr = 2, read_ptr = 3, rsize = 4, size_mask = 3\<rparr>"
  have wf: "wf_rb 2 ?rb" by (simp add: wf_rb_def)
  have ws: "write_space ?rb = 3" by (simp add: write_space_def)
  have src: "unat (min 5 (write_space ?rb)) \<le> length [1, 2, 3, 4, 5 :: nat]"
    by (simp add: ws)
  have p: "push ?rb [1, 2, 3, 4, 5] 5 = Inr (?res, 3)"
    by (simp add: push_def ws runs_def std_copy_def)
  from push_copies_min [OF wf src] p
  have "contents ?res = contents ?rb @ take (unat (min 5 (write_space ?rb))) [1, 2, 3, 4, 5]"
    by auto
  then have "contents ?res = [1, 2, 3]"
    by (simp add: ws contents_def ring_def)
  with wf src p show ?thesis by blast
qed

subsection \<open>Push and pop together\<close>

lemma pop_collector:
  assumes wf: "wf_rb k rb"
    and n: "n = (if cnt = 0 then read_space rb else min (read_space rb) cnt)"
  shows "\<exists>rb'. pop rb collector cnt seen = Inr (rb', seen @ take (unat n) (contents rb), n) \<and>
           contents rb' = drop (unat n) (contents rb) \<and>
           write_ptr rb' = write_ptr rb \<and> wf_rb k rb'"
proof -
  let ?w = "unat (write_ptr rb)" and ?r = "unat (read_ptr rb)" and ?N = "(2::nat) ^ k"
  have len: "length (buf rb) = ?N" using wf by (rule wf_length)
  have rl: "?r < ?N" using wf by (rule wf_read_lt)
  have wl: "?w < ?N" using wf by (rule wf_write_lt)
  have nle: "unat n \<le> (if ?r \<le> ?w then ?w - ?r else ?N - (?r - ?w))"
    using to_read_bound(1) [OF wf, of cnt] unfolding n unat_read_space [OF wf] .
  let ?rb' = "rb\<lparr>read_ptr := (read_ptr rb + n) AND size_mask rb\<rparr>"
  have c: "contents ?rb' = drop (unat n) (contents rb)"
    using ring_drop [OF len rl wl nle] unfolding contents_def
    by (simp add: wf_ptr_add [OF wf])
  have wf': "wf_rb k ?rb'" using wf by (rule wf_read_update)
  show ?thesis
  proof (cases "n = 0")
    case True
    then show ?thesis using wf unfolding pop_def n [symmetric] by (simp add: Let_def)
  next
    case nz: False
    show ?thesis
    proof (cases "?r + unat n \<le> ?N")
      case True
      have "pop rb collector cnt seen = Inr (?rb', seen @ take (unat n) (contents rb), n)"
        unfolding pop_nowrap [OF wf n nz True] contents_def
        using ring_take_nowrap [OF len rl wl nle True] by (simp add: collector_def)
      with c wf' show ?thesis by simp
    next
      case False
      then have gt: "?N < ?r + unat n" by simp
      have "pop rb collector cnt seen = Inr (?rb', seen @ take (unat n) (contents rb), n)"
        unfolding pop_wrap [OF wf n gt] contents_def
        using ring_take_wrap [OF len rl wl nle gt] by (simp add: collector_def)
      with c wf' show ?thesis by simp
    qed
  qed
qed

text \<open>Round trip through an empty buffer with the visitor form.\<close>

lemma push_pop_visitor_roundtrip:
  assumes wf: "wf_rb k rb" and e: "read_ptr rb = write_ptr rb"
    and len: "length xs = unat cnt" and cap: "unat cnt \<le> 2 ^ k - 1"
  shows "\<exists>rb1 rb2. push rb xs cnt = Inr (rb1, cnt) \<and>
           pop rb1 collector cnt [] = Inr (rb2, xs, cnt) \<and> contents rb2 = []"
proof -
  have "cnt \<le> write_space rb"
    using cap unfolding word_le_nat_alt contents_empty(3) [OF wf e] .
  then have m: "cnt = min cnt (write_space rb)" by (simp add: min_def)
  from push_effect [OF wf m, of xs] len obtain rb1 where
    p: "push rb xs cnt = Inr (rb1, cnt)" and c1: "contents rb1 = xs" and wf1: "wf_rb k rb1"
    using contents_empty(1) [OF wf e] by auto
  have "unat (read_space rb1) = unat cnt"
    using contents_length [OF wf1] c1 len by simp
  then have rs: "read_space rb1 = cnt" by (rule word_unat_eq_iff [THEN iffD2])
  have n: "cnt = (if cnt = 0 then read_space rb1 else min (read_space rb1) cnt)"
    using rs by simp
  from pop_collector [OF wf1 n, of "[]"] obtain rb2 where
    "pop rb1 collector cnt [] = Inr (rb2, take (unat cnt) (contents rb1), cnt)"
    and "contents rb2 = drop (unat cnt) (contents rb1)" by auto
  then have "pop rb1 collector cnt [] = Inr (rb2, xs, cnt)" and "contents rb2 = []"
    using c1 len by simp_all
  with p show ?thesis by blast
qed

text \<open>The destination form of \<open>pop\<close> when the read does not pass the end of the array.\<close>

lemma pop_dest_nowrap:
  assumes wf: "wf_rb k rb"
    and n: "n = (if cnt = 0 then read_space rb else min (read_space rb) cnt)"
    and le: "unat (read_ptr rb) + unat n \<le> 2 ^ k"
    and room: "unat n \<le> length dst"
  shows "\<exists>rb'. pop_dest rb dst cnt = Inr (rb', take (unat n) (contents rb) @ drop (unat n) dst, n) \<and>
           contents rb' = drop (unat n) (contents rb)"
proof (cases "n = 0")
  case True
  then show ?thesis unfolding pop_dest_def pop_def n [symmetric] by (simp add: Let_def)
next
  case nz: False
  let ?w = "unat (write_ptr rb)" and ?r = "unat (read_ptr rb)" and ?N = "(2::nat) ^ k"
  have len: "length (buf rb) = ?N" using wf by (rule wf_length)
  have rl: "?r < ?N" using wf by (rule wf_read_lt)
  have wl: "?w < ?N" using wf by (rule wf_write_lt)
  have nr: "unat n \<le> unat (read_space rb)"
    using to_read_bound(1) [OF wf, of cnt] unfolding n .
  then have nle: "unat n \<le> (if ?r \<le> ?w then ?w - ?r else ?N - (?r - ?w))"
    unfolding unat_read_space [OF wf] .
  have t: "take (unat n) (drop ?r (buf rb)) = take (unat n) (contents rb)"
    unfolding contents_def by (rule ring_take_nowrap [OF len rl wl nle le])
  have l: "length (take (unat n) (contents rb)) = unat n"
    using nr by (simp add: contents_length [OF wf])
  have m: "memcopier (take (unat n) (contents rb)) dst
      = Inr (take (unat n) (contents rb) @ drop (unat n) dst)"
    using room l by (simp add: memcopier_def std_copy_def)
  show ?thesis
    unfolding pop_dest_def pop_nowrap [OF wf n nz le] t m
    using advance_contents(1) [OF wf nr] by simp
qed

text \<open>
  Claim C1. Pushing N elements and popping N elements should give back the elements pushed,
  with either form of \<open>pop\<close>, also when the elements lie across the end of the array. On a
  buffer of size 4 whose indices have been moved to 3 by a first push and pop of three
  elements, pushing \<open>[1, 2, 3]\<close> stores them in two runs; the visitor form of \<open>pop\<close> then
  sees \<open>[1, 2, 3]\<close>, the destination form leaves \<open>[2, 3, 0]\<close> in the destination and reports
  three elements read.
\<close>

theorem pop_dest_wrap_loses_first_run:
  "Ringbuffer_new (\<lambda>i. 0 :: nat) 0 4
     = Inr \<lparr>buf = [0, 0, 0, 0], write_ptr = 0, read_ptr = 0, rsize = 4, size_mask = 3\<rparr> \<and>
   push \<lparr>buf = [0, 0, 0, 0 :: nat], write_ptr = 0, read_ptr = 0, rsize = 4, size_mask = 3\<rparr> [9, 9, 9] 3
     = Inr (\<lparr>buf = [9, 9, 9, 0], write_ptr = 3, read_ptr = 0, rsize = 4, size_mask = 3\<rparr>, 3) \<and>
   pop_dest \<lparr>buf = [9, 9, 9, 0 :: nat], write_ptr = 3, read_ptr = 0, rsize = 4, size_mask = 3\<rparr> [0, 0, 0] 3
     = Inr (\<lparr>buf = [9, 9, 9, 0], write_ptr = 3, read_ptr = 3, rsize = 4, size_mask = 3\<rparr>, [9, 9, 9], 3) \<and>
   push \<lparr>buf = [9, 9, 9, 0 :: nat], write_ptr = 3, read_ptr = 3, rsize = 4, size_mask = 3\<rparr> [1, 2, 3] 3
     = Inr (\<lparr>buf = [2, 3, 9, 1], write_ptr = 2, read_ptr = 3, rsize = 4, size_mask = 3\<rparr>, 3) \<and>
   pop \<lparr>buf = [2, 3, 9, 1 :: nat], write_ptr = 2, read_ptr = 3, rsize = 4, size_mask = 3\<rparr> collector 3 []
     = Inr (\<lparr>buf = [2, 3, 9, 1], write_ptr = 2, read_ptr = 2, rsize = 4, size_mask = 3\<rparr>, [1, 2, 3], 3) \<and>
   pop_dest \<lparr>buf = [2, 3, 9, 1 :: nat], write_ptr = 2, read_ptr = 3, rsize = 4, size_mask = 3\<rparr> [0, 0, 0] 3
     = Inr (\<lparr>buf = [2, 3, 9, 1], write_ptr = 2, read_ptr = 2, rsize = 4, size_mask = 3\<rparr>, [2, 3, 0], 3)"
  by (simp add: Ringbuffer_new_def next_power.simps upt_rec push_def pop_dest_def pop_def
      read_space_def write_space_def runs_def std_copy_def view_def memcopier_def collector_def)

subsection \<open>Flush\<close>

text \<open>The part of \<open>flush\<close> that works: a backlog longer than the target is cut down to it.\<close>

lemma flush_above_target:
  assumes wf: "wf_rb k rb" and gt: "cnt < read_space rb"
  shows "snd (flush rb cnt) = read_space rb - cnt"
    and "read_space (fst (flush rb cnt)) = cnt"
    and "contents (fst (flush rb cnt)) = drop (unat (read_space rb) - unat cnt) (contents rb)"
proof -
  let ?d = "read_space rb - cnt"
  let ?rb' = "rb\<lparr>read_ptr := (read_ptr rb + ?d) AND size_mask rb\<rparr>"
  have ud: "unat ?d = unat (read_space rb) - unat cnt"
    using gt by (intro unat_sub) simp
  have "unat ?d \<noteq> 0" unfolding ud using gt by (simp add: word_less_nat_alt)
  then have nz: "?d \<noteq> 0" by auto
  then have f: "flush rb cnt = (?rb', ?d)" by (simp add: flush_def Let_def)
  show "snd (flush rb cnt) = read_space rb - cnt" unfolding f by simp
  have dle: "unat ?d \<le> unat (read_space rb)" unfolding ud by simp
  show "contents (fst (flush rb cnt)) = drop (unat (read_space rb) - unat cnt) (contents rb)"
    unfolding f fst_conv advance_contents(1) [OF wf dle] ud ..
  have "unat (read_space ?rb') = unat cnt"
    unfolding advance_contents(2) [OF wf dle] ud using gt by (simp add: word_less_nat_alt)
  then show "read_space (fst (flush rb cnt)) = cnt"
    unfolding f fst_conv by (rule word_unat_eq_iff [THEN iffD2])
qed

lemma flush_at_target: "read_space rb = cnt \<Longrightarrow> flush rb cnt = (rb, 0)"
  by (simp add: flush_def)

text \<open>
  Below the target the unsigned difference wraps round instead of going negative, so the
  test \<open>to_flush <= 0\<close> does not hold and the read index is moved.
\<close>

lemma flush_below_target:
  assumes lt: "read_space rb < cnt"
  shows "flush rb cnt = (rb\<lparr>read_ptr := (read_ptr rb + (read_space rb - cnt)) AND size_mask rb\<rparr>,
                          read_space rb - cnt)"
    and "read_space rb - cnt \<noteq> 0"
proof -
  show nz: "read_space rb - cnt \<noteq> 0" using lt by simp
  then show "flush rb cnt = (rb\<lparr>read_ptr := (read_ptr rb + (read_space rb - cnt)) AND size_mask rb\<rparr>,
                          read_space rb - cnt)"
    by (simp add: flush_def Let_def)
qed

text \<open>
  Claim C8. \<open>flush(cnt)\<close> with fewer than \<open>cnt\<close> elements readable should discard nothing
  and return 0. On a newly constructed, empty buffer of size 4, \<open>flush(1)\<close> returns
  \<open>2^64 - 1\<close>, moves the read index from 0 to 3, and leaves one element readable that was
  never written.
\<close>

theorem flush_below_target_moves_read_ptr:
  "Ringbuffer_new (\<lambda>i. 0 :: nat) 0 4
     = Inr \<lparr>buf = [0, 0, 0, 0], write_ptr = 0, read_ptr = 0, rsize = 4, size_mask = 3\<rparr> \<and>
   read_space \<lparr>buf = [0, 0, 0, 0 :: nat], write_ptr = 0, read_ptr = 0, rsize = 4, size_mask = 3\<rparr> = 0 \<and>
   flush \<lparr>buf = [0, 0, 0, 0 :: nat], write_ptr = 0, read_ptr = 0, rsize = 4, size_mask = 3\<rparr> 1
     = (\<lparr>buf = [0, 0, 0, 0], write_ptr = 0, read_ptr = 3, rsize = 4, size_mask = 3\<rparr>,
        18446744073709551615) \<and>
   read_space \<lparr>buf = [0, 0, 0, 0 :: nat], write_ptr = 0, read_ptr = 3, rsize = 4, size_mask = 3\<rparr> = 1"
  by (simp add: Ringbuffer_new_def next_power.simps upt_rec flush_def read_space_def)

subsection \<open>The period ring buffer: calls out of order\<close>

lemma pop_finish_fault: "pop_finish L p hp = (Inl e, p') \<Longrightarrow> e = OutOfBounds"
  by (auto simp: pop_finish_def Let_def hdr_at_def view_def split: sum.splits if_splits)

lemma hdr_at_fault: "hdr_at L mem off = Inl e \<Longrightarrow> e = OutOfBounds"
  by (auto simp: hdr_at_def view_def split: sum.splits if_splits)

lemma std_copy_fault: "std_copy src first n dst off = Inl e \<Longrightarrow> e = OutOfBounds"
  by (auto simp: std_copy_def split: if_splits)

lemma view_fault: "view xs off n = Inl e \<Longrightarrow> e = OutOfBounds"
  by (auto simp: view_def split: if_splits)

lemma reserve_logic_error:
  "fst (reserve L p t nb nch) = Inl LogicError \<longleftrightarrow> chans_to_write p \<noteq> 0 \<or> write_hdr p \<noteq> None"
  by (auto simp: reserve_def Let_def split: sum.splits dest: std_copy_fault)

lemma period_push_logic_error:
  "fst (period_push L p src) = Inl LogicError \<longleftrightarrow> chans_to_write p = 0 \<or> write_hdr p = None"
  by (auto simp: period_push_def Let_def split: option.splits sum.splits
      dest: std_copy_fault hdr_at_fault)

lemma request_logic_error:
  "fst (request L p) = Inl LogicError \<longleftrightarrow> chans_to_read p \<noteq> 0 \<or> read_hdr p \<noteq> None"
  by (auto simp: request_def Let_def split: sum.splits dest: hdr_at_fault)

lemma period_pop_logic_error:
  "fst (period_pop L p dest) = Inl LogicError \<longleftrightarrow> chans_to_read p = 0 \<or> read_hdr p = None"
  by (auto simp: period_pop_def Let_def split: option.splits sum.splits prod.splits
      dest: std_copy_fault hdr_at_fault pop_finish_fault)

lemma period_pop_visitor_logic_error:
  "fst (period_pop_visitor L p f st) = Inl LogicError \<longleftrightarrow> chans_to_read p = 0 \<or> read_hdr p = None"
  by (auto simp: period_pop_visitor_def Let_def split: option.splits sum.splits prod.splits
      dest: view_fault hdr_at_fault pop_finish_fault)

text \<open>
  Claim C5. A call out of protocol order (\<open>reserve\<close> while a reservation is open, \<open>push\<close>
  with none open, \<open>request\<close> while a request is open, \<open>pop\<close> with none open) ends with
  \<open>std::logic_error\<close> and leaves the object exactly as it was; no call in protocol order ends
  with that error.
\<close>

theorem out_of_protocol_is_logic_error:
  "(chans_to_write p \<noteq> 0 \<or> write_hdr p \<noteq> None \<longrightarrow> reserve L p t nb nch = (Inl LogicError, p)) \<and>
   (chans_to_write p = 0 \<or> write_hdr p = None \<longrightarrow> period_push L p src = (Inl LogicError, p)) \<and>
   (chans_to_read p \<noteq> 0 \<or> read_hdr p \<noteq> None \<longrightarrow> request L p = (Inl LogicError, p)) \<and>
   (chans_to_read p = 0 \<or> read_hdr p = None \<longrightarrow>
      period_pop L p dest = (Inl LogicError, p) \<and>
      period_pop_visitor L p data_fun st = (Inl LogicError, p)) \<and>
   (fst (reserve L p t nb nch) = Inl LogicError \<longrightarrow> chans_to_write p \<noteq> 0 \<or> write_hdr p \<noteq> None) \<and>
   (fst (period_push L p src) = Inl LogicError \<longrightarrow> chans_to_write p = 0 \<or> write_hdr p = None) \<and>
   (fst (request L p) = Inl LogicError \<longrightarrow> chans_to_read p \<noteq> 0 \<or> read_hdr p \<noteq> None) \<and>
   (fst (period_pop L p dest) = Inl LogicError \<or>
    fst (period_pop_visitor L p data_fun st) = Inl LogicError
      \<longrightarrow> chans_to_read p = 0 \<or> read_hdr p = None)"
proof -
  have a: "reserve L p t nb nch = (Inl LogicError, p)"
    if "chans_to_write p \<noteq> 0 \<or> write_hdr p \<noteq> None"
    using that by (auto simp: reserve_def)
  have b: "period_push L p src = (Inl LogicError, p)"
    if "chans_to_write p = 0 \<or> write_hdr p = None"
    using that by (auto simp: period_push_def split: option.splits)
  have c: "request L p = (Inl LogicError, p)"
    if "chans_to_read p \<noteq> 0 \<or> read_hdr p \<noteq> None"
    using that by (auto simp: request_def)
  have d: "period_pop L p dest = (Inl LogicError, p)"
    if "chans_to_read p = 0 \<or> read_hdr p = None"
    using that by (auto simp: period_pop_def split: option.splits)
  have e: "period_pop_visitor L p data_fun st = (Inl LogicError, p)"
    if "chans_to_read p = 0 \<or> read_hdr p = None"
    using that by (auto simp: period_pop_visitor_def split: option.splits)
  show ?thesis
    unfolding reserve_logic_error period_push_logic_error request_logic_error
      period_pop_logic_error period_pop_visitor_logic_error
    using a b c d e by (intro conjI impI) simp_all
qed

theorem out_of_protocol_is_logic_error_witness:
  "chans_to_write \<lparr>super = \<lparr>buf = [0, 0, 0, 0], write_ptr = 0, read_ptr = 0, rsize = 4, size_mask = 3\<rparr>,
       read_hdr = None, write_hdr = Some 0, chans_to_read = 0, chans_to_write = 2\<rparr> \<noteq> 0 \<and>
   reserve lp64 \<lparr>super = \<lparr>buf = [0, 0, 0, 0], write_ptr = 0, read_ptr = 0, rsize = 4, size_mask = 3\<rparr>,
       read_hdr = None, write_hdr = Some 0, chans_to_read = 0, chans_to_write = 2\<rparr> 7 1 1
     = (Inl LogicError,
        \<lparr>super = \<lparr>buf = [0, 0, 0, 0], write_ptr = 0, read_ptr = 0, rsize = 4, size_mask = 3\<rparr>,
         read_hdr = None, write_hdr = Some 0, chans_to_read = 0, chans_to_write = 2\<rparr>) \<and>
   chans_to_read \<lparr>super = \<lparr>buf = [0, 0, 0, 0], write_ptr = 1, read_ptr = 0, rsize = 4, size_mask = 3\<rparr>,
       read_hdr = Some 0, write_hdr = None, chans_to_read = 1, chans_to_write = 0\<rparr> \<noteq> 0 \<and>
   request lp64 \<lparr>super = \<lparr>buf = [0, 0, 0, 0], write_ptr = 1, read_ptr = 0, rsize = 4, size_mask = 3\<rparr>,
       read_hdr = Some 0, write_hdr = None, chans_to_read = 1, chans_to_write = 0\<rparr>
     = (Inl LogicError,
        \<lparr>super = \<lparr>buf = [0, 0, 0, 0], write_ptr = 1, read_ptr = 0, rsize = 4, size_mask = 3\<rparr>,
         read_hdr = Some 0, write_hdr = None, chans_to_read = 1, chans_to_write = 0\<rparr>) \<and>
   chans_to_write \<lparr>super = \<lparr>buf = [0, 0, 0, 0], write_ptr = 0, read_ptr = 0, rsize = 4, size_mask = 3\<rparr>,
       read_hdr = None, write_hdr = None, chans_to_read = 0, chans_to_write = 0\<rparr> = 0 \<and>
   chans_to_read \<lparr>super = \<lparr>buf = [0, 0, 0, 0], write_ptr = 0, read_ptr = 0, rsize = 4, size_mask = 3\<rparr>,
       read_hdr = None, write_hdr = None, chans_to_read = 0, chans_to_write = 0\<rparr> = 0 \<and>
   period_push lp64 \<lparr>super = \<lparr>buf = [0, 0, 0, 0], write_ptr = 0, read_ptr = 0, rsize = 4, size_mask = 3\<rparr>,
       read_hdr = None, write_hdr = None, chans_to_read = 0, chans_to_write = 0\<rparr> [1, 2]
     = (Inl LogicError,
        \<lparr>super = \<lparr>buf = [0, 0, 0, 0], write_ptr = 0, read_ptr = 0, rsize = 4, size_mask = 3\<rparr>,
         read_hdr = None, write_hdr = None, chans_to_read = 0, chans_to_write = 0\<rparr>) \<and>
   period_pop lp64 \<lparr>super = \<lparr>buf = [0, 0, 0, 0], write_ptr = 0, read_ptr = 0, rsize = 4, size_mask = 3\<rparr>,
       read_hdr = None, write_hdr = None, chans_to_read = 0, chans_to_write = 0\<rparr> [0, 0]
     = (Inl LogicError,
        \<lparr>super = \<lparr>buf = [0, 0, 0, 0], write_ptr = 0, read_ptr = 0, rsize = 4, size_mask = 3\<rparr>,
         read_hdr = None, write_hdr = None, chans_to_read = 0, chans_to_write = 0\<rparr>) \<and>
   period_pop_visitor lp64
       \<lparr>super = \<lparr>buf = [0, 0, 0, 0], write_ptr = 0, read_ptr = 0, rsize = 4, size_mask = 3\<rparr>,
       read_hdr = None, write_hdr = None, chans_to_read = 0, chans_to_write = 0\<rparr>
       (\<lambda>bs n c seen. seen @ bs) []
     = (Inl LogicError,
        \<lparr>super = \<lparr>buf = [0, 0, 0, 0], write_ptr = 0, read_ptr = 0, rsize = 4, size_mask = 3\<rparr>,
         read_hdr = None, write_hdr = None, chans_to_read = 0, chans_to_write = 0\<rparr>)"
proof -
  let ?R = "\<lparr>super = \<lparr>buf = [0, 0, 0, 0], write_ptr = 0, read_ptr = 0, rsize = 4, size_mask = 3\<rparr>,
        read_hdr = None, write_hdr = Some 0, chans_to_read = 0, chans_to_write = 2\<rparr>"
  let ?Q = "\<lparr>super = \<lparr>buf = [0, 0, 0, 0], write_ptr = 1, read_ptr = 0, rsize = 4, size_mask = 3\<rparr>,
        read_hdr = Some 0, write_hdr = None, chans_to_read = 1, chans_to_write = 0\<rparr>"
  let ?F = "\<lparr>super = \<lparr>buf = [0, 0, 0, 0], write_ptr = 0, read_ptr = 0, rsize = 4, size_mask = 3\<rparr>,
        read_hdr = None, write_hdr = None, chans_to_read = 0, chans_to_write = 0\<rparr>"
  have hr: "chans_to_write ?R \<noteq> 0 \<or> write_hdr ?R \<noteq> None" by simp
  have hq: "chans_to_read ?Q \<noteq> 0 \<or> read_hdr ?Q \<noteq> None" by simp
  have hw: "chans_to_write ?F = 0 \<or> write_hdr ?F = None" by simp
  have hf: "chans_to_read ?F = 0 \<or> read_hdr ?F = None" by simp
  have r: "reserve lp64 ?R 7 1 1 = (Inl LogicError, ?R)"
    by (rule out_of_protocol_is_logic_error [where p = ?R and L = lp64 and t = 7 and nb = 1
          and nch = 1, THEN conjunct1, THEN mp, OF hr])
  have q: "request lp64 ?Q = (Inl LogicError, ?Q)"
    by (rule out_of_protocol_is_logic_error [where p = ?Q and L = lp64,
          THEN conjunct2, THEN conjunct2, THEN conjunct1, THEN mp, OF hq])
  have w: "period_push lp64 ?F [1, 2] = (Inl LogicError, ?F)"
    by (rule out_of_protocol_is_logic_error [where p = ?F and L = lp64 and src = "[1, 2]",
          THEN conjunct2, THEN conjunct1, THEN mp, OF hw])
  have f: "period_pop lp64 ?F [0, 0] = (Inl LogicError, ?F) \<and>
      period_pop_visitor lp64 ?F (\<lambda>bs n c seen. seen @ bs) ([] :: byte list) = (Inl LogicError, ?F)"
    by (rule out_of_protocol_is_logic_error [where p = ?F and L = lp64 and dest = "[0, 0]"
          and data_fun = "\<lambda>bs n c seen. seen @ bs" and st = "[] :: byte list",
          THEN conjunct2, THEN conjunct2, THEN conjunct2, THEN conjunct1, THEN mp, OF hf])
  show ?thesis using r q w f by simp
qed

subsection \<open>The period ring buffer: reserve\<close>

lemma word_div_less_1:
  fixes a b :: size_type
  assumes "b \<noteq> 0"
  shows "a div b < 1 \<longleftrightarrow> a < b"
proof -
  have "0 < unat b" using assms by (simp add: unat_gt_0)
  then have "unat a div unat b = 0 \<longleftrightarrow> unat a < unat b"
    by (simp add: div_eq_0_iff)
  then have "unat (a div b) = 0 \<longleftrightarrow> unat a < unat b"
    by (simp only: unat_div)
  then have "a div b = 0 \<longleftrightarrow> a < b"
    by (simp only: unat_eq_zero word_less_nat_alt)
  then show ?thesis
    by (simp only: word_less_1)
qed

text \<open>
  What \<open>reserve\<close> computes on a call in protocol order, when its chunk size
  \<open>sizeof(period_info_t) + nbytes * nchannels * sizeof(sample_t)\<close> has not wrapped round to
  zero and the header lies inside the array at the write offset: it returns 0 and changes
  nothing exactly when \<open>write_space()\<close> is below that chunk size; otherwise the header's
  bytes are stored at the write offset, \<open>_write_hdr\<close> points to them, \<open>nchannels\<close> channel
  writes are owed, both indices stay, and \<open>write_space() / chunk_size\<close> is returned.
\<close>

lemma reserve_room_or_header:
  assumes wf: "wf_rb k (super p)"
    and idle: "chans_to_write p = 0 \<and> write_hdr p = None"
    and chunk: "chunk = sizeof_info L + nb * nch * sizeof_sample L"
    and nz: "chunk \<noteq> 0"
    and h: "h = \<lparr>time = t, nbytes = nb, nchannels = nch\<rparr>"
    and len: "length (store_info L h) = unat (sizeof_info L)"
    and fits: "unat (write_ptr (super p)) + unat (sizeof_info L) \<le> 2 ^ k"
  shows "(fst (reserve L p t nb nch) = Inr 0 \<longleftrightarrow> write_space (super p) < chunk) \<and>
         (write_space (super p) < chunk \<longrightarrow> reserve L p t nb nch = (Inr 0, p)) \<and>
         (chunk \<le> write_space (super p) \<longrightarrow>
            reserve L p t nb nch =
              (Inr (write_space (super p) div chunk),
               p\<lparr>write_hdr := Some (unat (write_ptr (super p))),
                 super := (super p)\<lparr>buf :=
                    take (unat (write_ptr (super p))) (buf (super p)) @ store_info L h @
                    drop (unat (write_ptr (super p)) + unat (sizeof_info L)) (buf (super p))\<rparr>,
                 chans_to_write := nch\<rparr>) \<and>
            write_space (super p) div chunk \<noteq> 0)"
proof -
  let ?ws = "write_space (super p)" and ?w = "unat (write_ptr (super p))"
  let ?H = "unat (sizeof_info L)"
  have d: "?ws div chunk < 1 \<longleftrightarrow> ?ws < chunk" using nz by (rule word_div_less_1)
  have c: "std_copy (store_info L h) 0 ?H (buf (super p)) ?w
      = Inr (take ?w (buf (super p)) @ store_info L h @ drop (?w + ?H) (buf (super p)))"
    using fits len by (simp add: std_copy_def wf_length [OF wf])
  have small: "reserve L p t nb nch = (Inr 0, p)" if "?ws < chunk"
    using that idle nz d unfolding reserve_def chunk [symmetric] by (simp add: Let_def)
  have big: "reserve L p t nb nch =
      (Inr (?ws div chunk),
       p\<lparr>write_hdr := Some ?w,
         super := (super p)\<lparr>buf := take ?w (buf (super p)) @ store_info L h @
                                     drop (?w + ?H) (buf (super p))\<rparr>,
         chans_to_write := nch\<rparr>) \<and> ?ws div chunk \<noteq> 0" if "chunk \<le> ?ws"
  proof -
    have n1: "\<not> ?ws div chunk < 1" using that d by (simp add: not_less)
    then have "?ws div chunk \<noteq> 0" by simp
    moreover have "reserve L p t nb nch =
      (Inr (?ws div chunk),
       p\<lparr>write_hdr := Some ?w,
         super := (super p)\<lparr>buf := take ?w (buf (super p)) @ store_info L h @
                                     drop (?w + ?H) (buf (super p))\<rparr>,
         chans_to_write := nch\<rparr>)"
      using idle nz n1 c unfolding reserve_def chunk [symmetric] h [symmetric]
      by (simp add: Let_def write_offset_def)
    ultimately show ?thesis by simp
  qed
  have "fst (reserve L p t nb nch) = Inr 0 \<longleftrightarrow> ?ws < chunk"
  proof (cases "?ws < chunk")
    case True
    then show ?thesis using small by simp
  next
    case False
    then have "chunk \<le> ?ws" by (simp add: not_less)
    from big [OF this] False show ?thesis by simp
  qed
  then show ?thesis using small big by blast
qed

text \<open>
  Claim C6. \<open>reserve\<close> should return 0 exactly when less than one period (header plus
  \<open>nbytes * nchannels\<close> bytes) of write space is left. It multiplies \<open>nbytes * nchannels\<close>
  by \<open>sizeof(sample_t)\<close> once more: with 63 bytes free, a period of 2 channels of 8 bytes
  (24 + 16 = 40 bytes) is refused, because 24 + 8 * 2 * 4 = 88 bytes are asked for. The same
  period, reserved and pushed in a buffer of 128 bytes, moves the write index by 40. The sum
  is not checked either: for \<open>nbytes = 2^62 - 6\<close> and one channel it wraps round to 0 and
  \<open>reserve\<close> divides by it.
\<close>

theorem reserve_demands_sample_size_multiple:
  "calls lp64 [Reserve 7 8 2]
     \<lparr>super = \<lparr>buf = replicate 64 0, write_ptr = 0, read_ptr = 0, rsize = 64, size_mask = 63\<rparr>,
      read_hdr = None, write_hdr = None, chans_to_read = 0, chans_to_write = 0\<rparr>
     = ([Reserved 0],
        \<lparr>super = \<lparr>buf = replicate 64 0, write_ptr = 0, read_ptr = 0, rsize = 64, size_mask = 63\<rparr>,
         read_hdr = None, write_hdr = None, chans_to_read = 0, chans_to_write = 0\<rparr>) \<and>
   unat (sizeof_info lp64) + 8 * 2 = 40 \<and>
   unat (write_space \<lparr>buf = replicate 64 (0 :: byte), write_ptr = 0, read_ptr = 0, rsize = 64,
                       size_mask = 63\<rparr>) = 63 \<and>
   fst (calls lp64 [Reserve 7 8 2, Push_channel [1, 2, 3, 4, 5, 6, 7, 8],
                    Push_channel [9, 10, 11, 12, 13, 14, 15, 16]]
     \<lparr>super = \<lparr>buf = replicate 128 0, write_ptr = 0, read_ptr = 0, rsize = 128, size_mask = 127\<rparr>,
      read_hdr = None, write_hdr = None, chans_to_read = 0, chans_to_write = 0\<rparr>)
     = [Reserved 1, Pushed, Pushed] \<and>
   write_ptr (super (snd (calls lp64 [Reserve 7 8 2, Push_channel [1, 2, 3, 4, 5, 6, 7, 8],
                    Push_channel [9, 10, 11, 12, 13, 14, 15, 16]]
     \<lparr>super = \<lparr>buf = replicate 128 0, write_ptr = 0, read_ptr = 0, rsize = 128, size_mask = 127\<rparr>,
      read_hdr = None, write_hdr = None, chans_to_read = 0, chans_to_write = 0\<rparr>))) = 40 \<and>
   calls lp64 [Reserve 7 4611686018427387898 1]
     \<lparr>super = \<lparr>buf = replicate 64 0, write_ptr = 0, read_ptr = 0, rsize = 64, size_mask = 63\<rparr>,
      read_hdr = None, write_hdr = None, chans_to_read = 0, chans_to_write = 0\<rparr>
     = ([Failed DivisionByZero],
        \<lparr>super = \<lparr>buf = replicate 64 0, write_ptr = 0, read_ptr = 0, rsize = 64, size_mask = 63\<rparr>,
         read_hdr = None, write_hdr = None, chans_to_read = 0, chans_to_write = 0\<rparr>)"
  by code_simp

subsection \<open>The period ring buffer: reading a period back\<close>

text \<open>
  Claim C3. Each \<open>pop\<close> should take one channel, and the read pointer should move past the
  period when the last channel owed has been read. Both forms of \<open>pop\<close> test
  \<open>_chans_to_write\<close> instead of \<open>_chans_to_read\<close>. With no reservation open, the first \<open>pop\<close>
  of a two-channel period already moves the read index past the whole period (28 bytes) while
  one channel is still owed, in the copying form and in the visitor form; with a reservation
  open, the \<open>pop\<close> of the last channel leaves the read index where it was.
\<close>

theorem pop_advances_on_write_counter:
  "period_ringbuffer_new (\<lambda>i. 0) 0 64
     = Inr \<lparr>super = \<lparr>buf = replicate 64 0, write_ptr = 0, read_ptr = 0, rsize = 64, size_mask = 63\<rparr>,
            read_hdr = None, write_hdr = None, chans_to_read = 0, chans_to_write = 0\<rparr> \<and>
   fst (calls lp64 [Reserve 7 2 2, Push_channel [1, 2], Push_channel [3, 4], Request, Pop_channel [0, 0]]
     \<lparr>super = \<lparr>buf = replicate 64 0, write_ptr = 0, read_ptr = 0, rsize = 64, size_mask = 63\<rparr>,
      read_hdr = None, write_hdr = None, chans_to_read = 0, chans_to_write = 0\<rparr>)
     = [Reserved 1, Pushed, Pushed, Requested (Some \<lparr>time = 7, nbytes = 2, nchannels = 2\<rparr>),
        Popped [1, 2]] \<and>
   chans_to_read (snd (calls lp64
       [Reserve 7 2 2, Push_channel [1, 2], Push_channel [3, 4], Request, Pop_channel [0, 0]]
     \<lparr>super = \<lparr>buf = replicate 64 0, write_ptr = 0, read_ptr = 0, rsize = 64, size_mask = 63\<rparr>,
      read_hdr = None, write_hdr = None, chans_to_read = 0, chans_to_write = 0\<rparr>)) = 1 \<and>
   read_ptr (super (snd (calls lp64
       [Reserve 7 2 2, Push_channel [1, 2], Push_channel [3, 4], Request, Pop_channel [0, 0]]
     \<lparr>super = \<lparr>buf = replicate 64 0, write_ptr = 0, read_ptr = 0, rsize = 64, size_mask = 63\<rparr>,
      read_hdr = None, write_hdr = None, chans_to_read = 0, chans_to_write = 0\<rparr>))) = 28 \<and>
   fst (calls lp64 [Reserve 7 2 1, Push_channel [1, 2], Reserve 8 2 1, Request, Pop_channel [0, 0]]
     \<lparr>super = \<lparr>buf = replicate 64 0, write_ptr = 0, read_ptr = 0, rsize = 64, size_mask = 63\<rparr>,
      read_hdr = None, write_hdr = None, chans_to_read = 0, chans_to_write = 0\<rparr>)
     = [Reserved 1, Pushed, Reserved 1, Requested (Some \<lparr>time = 7, nbytes = 2, nchannels = 1\<rparr>),
        Popped [1, 2]] \<and>
   chans_to_read (snd (calls lp64
       [Reserve 7 2 1, Push_channel [1, 2], Reserve 8 2 1, Request, Pop_channel [0, 0]]
     \<lparr>super = \<lparr>buf = replicate 64 0, write_ptr = 0, read_ptr = 0, rsize = 64, size_mask = 63\<rparr>,
      read_hdr = None, write_hdr = None, chans_to_read = 0, chans_to_write = 0\<rparr>)) = 0 \<and>
   read_ptr (super (snd (calls lp64
       [Reserve 7 2 1, Push_channel [1, 2], Reserve 8 2 1, Request, Pop_channel [0, 0]]
     \<lparr>super = \<lparr>buf = replicate 64 0, write_ptr = 0, read_ptr = 0, rsize = 64, size_mask = 63\<rparr>,
      read_hdr = None, write_hdr = None, chans_to_read = 0, chans_to_write = 0\<rparr>))) = 0 \<and>
   fst (calls lp64 [Reserve 7 2 2, Push_channel [1, 2], Push_channel [3, 4], Request, Visit_channel]
     \<lparr>super = \<lparr>buf = replicate 64 0, write_ptr = 0, read_ptr = 0, rsize = 64, size_mask = 63\<rparr>,
      read_hdr = None, write_hdr = None, chans_to_read = 0, chans_to_write = 0\<rparr>)
     = [Reserved 1, Pushed, Pushed, Requested (Some \<lparr>time = 7, nbytes = 2, nchannels = 2\<rparr>),
        Visited [([1, 2], 2, 0)]] \<and>
   chans_to_read (snd (calls lp64
       [Reserve 7 2 2, Push_channel [1, 2], Push_channel [3, 4], Request, Visit_channel]
     \<lparr>super = \<lparr>buf = replicate 64 0, write_ptr = 0, read_ptr = 0, rsize = 64, size_mask = 63\<rparr>,
      read_hdr = None, write_hdr = None, chans_to_read = 0, chans_to_write = 0\<rparr>)) = 1 \<and>
   read_ptr (super (snd (calls lp64
       [Reserve 7 2 2, Push_channel [1, 2], Push_channel [3, 4], Request, Visit_channel]
     \<lparr>super = \<lparr>buf = replicate 64 0, write_ptr = 0, read_ptr = 0, rsize = 64, size_mask = 63\<rparr>,
      read_hdr = None, write_hdr = None, chans_to_read = 0, chans_to_write = 0\<rparr>))) = 28"
  by code_simp

text \<open>
  Claim C4. A period that is reserved, pushed channel by channel, requested and popped
  channel by channel should come back as it went in. The header does; the first channel
  does; the second channel of a two-channel period \<open>[1, 2], [3, 4]\<close> comes back as \<open>[0, 0]\<close>,
  read from behind the period, because the first \<open>pop\<close> has already moved the read index.
  After that no period can be requested any more: \<open>_read_hdr\<close> is never reset.
\<close>

theorem period_round_trip_loses_second_channel:
  "fst (calls lp64 [Reserve 7 2 2, Push_channel [1, 2], Push_channel [3, 4], Request,
                    Pop_channel [0, 0], Pop_channel [0, 0], Request]
     \<lparr>super = \<lparr>buf = replicate 64 0, write_ptr = 0, read_ptr = 0, rsize = 64, size_mask = 63\<rparr>,
      read_hdr = None, write_hdr = None, chans_to_read = 0, chans_to_write = 0\<rparr>)
     = [Reserved 1, Pushed, Pushed, Requested (Some \<lparr>time = 7, nbytes = 2, nchannels = 2\<rparr>),
        Popped [1, 2], Popped [0, 0], Failed LogicError]"
  by code_simp

subsection \<open>The trigger gate\<close>

lemma record_crossings_ok:
  assumes "0 \<le> idx" "idx < window" "int (length history) = window"
  shows "record_crossings history idx window n =
     Inr (history[nat idx := n], (idx + 1) mod window, sum_list (history[nat idx := n]))"
  using assms by (auto simp: record_crossings_def Let_def)

lemma sum_list_overwrite:
  "i < length xs \<Longrightarrow> sum_list (xs[i := n]) = sum_list xs - xs ! i + (n :: int)"
  by (induction xs arbitrary: i) (auto split: nat.splits)

text \<open>
  Claim C9. One update of the trigger gate on an incoming buffer, with each cursor inside its
  history and each history as long as its window. Closed: the count against
  \<open>open_threshold\<close> replaces the entry of the open history at the cursor, the cursor moves on
  modulo the window length, and the gate opens exactly when the sum of the history is at
  least \<open>crossings_per_open_window\<close>. Open: the same with \<open>close_threshold\<close> and the close
  history, and the gate closes exactly when the sum is below \<open>crossings_per_close_window\<close>.
  The other history and cursor are not touched, and the state returned is the state stored.
\<close>

theorem trigger_update_hysteresis:
  assumes st: "state trigger = closed \<or> state trigger = opened"
    and oi: "0 \<le> open_idx trigger \<and> open_idx trigger < buffers_per_open_window trigger"
    and ol: "int (length (nopen_crossings trigger)) = buffers_per_open_window trigger"
    and ci: "0 \<le> close_idx trigger \<and> close_idx trigger < buffers_per_close_window trigger"
    and cl: "int (length (nclose_crossings trigger)) = buffers_per_close_window trigger"
  shows "\<exists>s trigger'.
      JILL_trigger_calc_new_state get_crossings trigger buffer = Inr (s, trigger') \<and>
      state trigger' = s \<and>
      (state trigger = closed \<longrightarrow>
         nopen_crossings trigger' =
           (nopen_crossings trigger)[nat (open_idx trigger) := get_crossings (open_threshold trigger) buffer] \<and>
         open_idx trigger' = (open_idx trigger + 1) mod buffers_per_open_window trigger \<and>
         nclose_crossings trigger' = nclose_crossings trigger \<and>
         close_idx trigger' = close_idx trigger \<and>
         (s = opened \<longleftrightarrow> sum_list (nopen_crossings trigger') \<ge> crossings_per_open_window trigger) \<and>
         (s = closed \<longleftrightarrow> sum_list (nopen_crossings trigger') < crossings_per_open_window trigger)) \<and>
      (state trigger = opened \<longrightarrow>
         nclose_crossings trigger' =
           (nclose_crossings trigger)[nat (close_idx trigger) := get_crossings (close_threshold trigger) buffer] \<and>
         close_idx trigger' = (close_idx trigger + 1) mod buffers_per_close_window trigger \<and>
         nopen_crossings trigger' = nopen_crossings trigger \<and>
         open_idx trigger' = open_idx trigger \<and>
         (s = closed \<longleftrightarrow> sum_list (nclose_crossings trigger') < crossings_per_close_window trigger) \<and>
         (s = opened \<longleftrightarrow> sum_list (nclose_crossings trigger') \<ge> crossings_per_close_window trigger))"
proof (cases "state trigger = closed")
  case True
  have r: "record_crossings (nopen_crossings trigger) (open_idx trigger)
              (buffers_per_open_window trigger) (get_crossings (open_threshold trigger) buffer)
      = Inr ((nopen_crossings trigger)[nat (open_idx trigger) := get_crossings (open_threshold trigger) buffer],
             (open_idx trigger + 1) mod buffers_per_open_window trigger,
             sum_list ((nopen_crossings trigger)[nat (open_idx trigger) := get_crossings (open_threshold trigger) buffer]))"
    using oi ol by (intro record_crossings_ok) simp_all
  show ?thesis
    using True unfolding JILL_trigger_calc_new_state_def r
    by (simp add: Let_def closed_def opened_def)
next
  case False
  with st have op: "state trigger = opened" by simp
  have r: "record_crossings (nclose_crossings trigger) (close_idx trigger)
              (buffers_per_close_window trigger) (get_crossings (close_threshold trigger) buffer)
      = Inr ((nclose_crossings trigger)[nat (close_idx trigger) := get_crossings (close_threshold trigger) buffer],
             (close_idx trigger + 1) mod buffers_per_close_window trigger,
             sum_list ((nclose_crossings trigger)[nat (close_idx trigger) := get_crossings (close_threshold trigger) buffer]))"
    using ci cl by (intro record_crossings_ok) simp_all
  show ?thesis
    using op unfolding JILL_trigger_calc_new_state_def r
    by (simp add: Let_def closed_def opened_def)
qed

theorem trigger_update_hysteresis_witness:
  "JILL_trigger_calc_new_state (\<lambda>th buf. int (length (filter (\<lambda>x. th < \<bar>x\<bar>) buf)))
     \<lparr>state = closed, open_threshold = 10 :: int, close_threshold = 5, open_window = 0,
      close_window = 0, crossings_per_open_window = 3, crossings_per_close_window = 1,
      buffers_per_open_window = 5, buffers_per_close_window = 2,
      nopen_crossings = [2, 0, 0, 0, 0], nclose_crossings = [0, 0],
      open_idx = 1, close_idx = 0, samples_processed = 0\<rparr>
     [0, 11, -12, 3 :: int]
   = Inr (opened,
     \<lparr>state = opened, open_threshold = 10, close_threshold = 5, open_window = 0,
      close_window = 0, crossings_per_open_window = 3, crossings_per_close_window = 1,
      buffers_per_open_window = 5, buffers_per_close_window = 2,
      nopen_crossings = [2, 2, 0, 0, 0], nclose_crossings = [0, 0],
      open_idx = 2, close_idx = 0, samples_processed = 0\<rparr>) \<and>
   JILL_trigger_calc_new_state (\<lambda>th buf. int (length (filter (\<lambda>x. th < \<bar>x\<bar>) buf)))
     \<lparr>state = opened, open_threshold = 10 :: int, close_threshold = 5, open_window = 0,
      close_window = 0, crossings_per_open_window = 3, crossings_per_close_window = 1,
      buffers_per_open_window = 5, buffers_per_close_window = 2,
      nopen_crossings = [2, 2, 0, 0, 0], nclose_crossings = [0, 4],
      open_idx = 2, close_idx = 1, samples_processed = 0\<rparr>
     [0, 1, -2, 3 :: int]
   = Inr (closed,
     \<lparr>state = closed, open_threshold = 10, close_threshold = 5, open_window = 0,
      close_window = 0, crossings_per_open_window = 3, crossings_per_close_window = 1,
      buffers_per_open_window = 5, buffers_per_close_window = 2,
      nopen_crossings = [2, 2, 0, 0, 0], nclose_crossings = [0, 0],
      open_idx = 2, close_idx = 0, samples_processed = 0\<rparr>)"
proof -
  let ?g = "\<lambda>(th :: int) buf. int (length (filter (\<lambda>x. th < \<bar>x\<bar>) buf))"
  let ?C = "\<lparr>state = closed, open_threshold = 10 :: int, close_threshold = 5, open_window = 0,
      close_window = 0, crossings_per_open_window = 3, crossings_per_close_window = 1,
      buffers_per_open_window = 5, buffers_per_close_window = 2,
      nopen_crossings = [2, 0, 0, 0, 0], nclose_crossings = [0, 0],
      open_idx = 1, close_idx = 0, samples_processed = 0\<rparr>"
  let ?O = "\<lparr>state = opened, open_threshold = 10 :: int, close_threshold = 5, open_window = 0,
      close_window = 0, crossings_per_open_window = 3, crossings_per_close_window = 1,
      buffers_per_open_window = 5, buffers_per_close_window = 2,
      nopen_crossings = [2, 2, 0, 0, 0], nclose_crossings = [0, 4],
      open_idx = 2, close_idx = 1, samples_processed = 0\<rparr>"
  have c1: "state ?C = closed \<or> state ?C = opened" by simp
  have c2: "0 \<le> open_idx ?C \<and> open_idx ?C < buffers_per_open_window ?C" by simp
  have c3: "int (length (nopen_crossings ?C)) = buffers_per_open_window ?C" by simp
  have c4: "0 \<le> close_idx ?C \<and> close_idx ?C < buffers_per_close_window ?C" by simp
  have c5: "int (length (nclose_crossings ?C)) = buffers_per_close_window ?C" by simp
  have o1: "state ?O = closed \<or> state ?O = opened" by simp
  have o2: "0 \<le> open_idx ?O \<and> open_idx ?O < buffers_per_open_window ?O" by simp
  have o3: "int (length (nopen_crossings ?O)) = buffers_per_open_window ?O" by simp
  have o4: "0 \<le> close_idx ?O \<and> close_idx ?O < buffers_per_close_window ?O" by simp
  have o5: "int (length (nclose_crossings ?O)) = buffers_per_close_window ?O" by simp
  from trigger_update_hysteresis [OF c1 c2 c3 c4 c5, of ?g "[0, 11, -12, 3]"]
  obtain s t where r: "JILL_trigger_calc_new_state ?g ?C [0, 11, -12, 3] = Inr (s, t)"
    and rs: "state t = s"
    and rh: "nopen_crossings t = (nopen_crossings ?C)[nat (open_idx ?C) := ?g (open_threshold ?C) [0, 11, -12, 3]]"
    and ri: "open_idx t = (open_idx ?C + 1) mod buffers_per_open_window ?C"
    and rc: "nclose_crossings t = nclose_crossings ?C" "close_idx t = close_idx ?C"
    and ro: "s = opened \<longleftrightarrow> sum_list (nopen_crossings t) \<ge> crossings_per_open_window ?C"
    by auto
  have "s = opened" unfolding ro rh by simp
  with r rs have a: "JILL_trigger_calc_new_state ?g ?C [0, 11, -12, 3]
      = Inr (opened,
     \<lparr>state = opened, open_threshold = 10, close_threshold = 5, open_window = 0,
      close_window = 0, crossings_per_open_window = 3, crossings_per_close_window = 1,
      buffers_per_open_window = 5, buffers_per_close_window = 2,
      nopen_crossings = [2, 2, 0, 0, 0], nclose_crossings = [0, 0],
      open_idx = 2, close_idx = 0, samples_processed = 0\<rparr>)"
    by (simp add: JILL_trigger_calc_new_state_def record_crossings_def closed_def opened_def)
  from trigger_update_hysteresis [OF o1 o2 o3 o4 o5, of ?g "[0, 1, -2, 3]"]
  obtain s' t' where r': "JILL_trigger_calc_new_state ?g ?O [0, 1, -2, 3] = Inr (s', t')"
    and "state t' = s'"
    by auto
  then have b: "JILL_trigger_calc_new_state ?g ?O [0, 1, -2, 3]
      = Inr (closed,
     \<lparr>state = closed, open_threshold = 10, close_threshold = 5, open_window = 0,
      close_window = 0, crossings_per_open_window = 3, crossings_per_close_window = 1,
      buffers_per_open_window = 5, buffers_per_close_window = 2,
      nopen_crossings = [2, 2, 0, 0, 0], nclose_crossings = [0, 0],
      open_idx = 2, close_idx = 0, samples_processed = 0\<rparr>)"
    by (simp add: JILL_trigger_calc_new_state_def record_crossings_def closed_def opened_def)
  show ?thesis by (rule conjI [OF a b])
qed

end
